theory Spec2Isabelle
  imports Complex_Main "HOL-Library.Log_Nat"
begin

section \<open>INDbox v1 firmware: ranging and distance filter\<close>

text \<open>
  The development embeds the filtered firmware variant \<^verbatim>\<open>firmware/indbox_v1.ino\<close>:
  the raw ultrasonic measurement \<^verbatim>\<open>readUltrasonicMillimetersRaw\<close>, the helpers
  \<^verbatim>\<open>isDistanceValid\<close> and \<^verbatim>\<open>clampStep\<close>, and the distance filter inside
  \<^verbatim>\<open>loop\<close> with its three \<^verbatim>\<open>static\<close> variables.

  The firmware computes in C \<^verbatim>\<open>float\<close>, IEEE 754 binary32 with rounding to nearest, ties
  to even. A \<^verbatim>\<open>float\<close> value is modelled by the real number it denotes, and every
  arithmetic operation by the exact operation followed by the rounding \<open>rnd32\<close> defined
  below (24 significant bits, least exponent \<open>-126\<close>, subnormal numbers included).
  Infinities and NaN are left out: every value the program computes is bounded in
  magnitude by \<open>2\<^sup>3\<^sup>2\<close>, far below the overflow threshold, and the program never divides.
  The factors \<^verbatim>\<open>0.5f\<close> and \<^verbatim>\<open>0.25f\<close> are powers of two, so the results are the same
  whether or not a compiler contracts a multiplication and an addition into one fused
  operation.

  \<^verbatim>\<open>long\<close> (32 bits on the ESP32) is modelled by \<open>int\<close>: the filter only compares,
  adds and subtracts values between \<open>-1\<close> and \<open>2080\<close>, and the ranging result is below
  \<open>2\<^sup>3\<^sup>0\<close>, so no operation wraps. The \<^verbatim>\<open>uint32_t\<close> pulse duration is only compared with
  zero and converted to \<^verbatim>\<open>float\<close>; it is modelled by \<open>nat\<close>.
\<close>

subsection \<open>Single-precision rounding\<close>

definition pow2 :: "int \<Rightarrow> real" where
  "pow2 e = 2 powi e"

text \<open>Rounding of a real to the nearest integer, ties to the even integer.\<close>

definition rne :: "real \<Rightarrow> int" where
  "rne x = (let f = \<lfloor>x\<rfloor>; r = x - of_int f
            in if r < 1/2 then f else if 1/2 < r then f + 1
               else if even f then f else f + 1)"

text \<open>The binary exponent of a non-zero real: \<open>2 powi expo x \<le> \<bar>x\<bar> < 2 powi (expo x + 1)\<close>.\<close>

definition expo :: "real \<Rightarrow> int" where
  "expo x = (if 1 \<le> \<bar>x\<bar> then bitlen \<lfloor>\<bar>x\<bar>\<rfloor> - 1 else - bitlen (\<lceil>1 / \<bar>x\<bar>\<rceil> - 1))"

text \<open>The spacing of binary32 numbers around \<open>x\<close>; constant below \<open>2 powi (-126)\<close>.\<close>

definition quantum :: "real \<Rightarrow> real" where
  "quantum x = pow2 (max (expo x) (- 126) - 23)"

definition rnd32 :: "real \<Rightarrow> real" where
  "rnd32 x = (if x = 0 then 0 else of_int (rne (x / quantum x)) * quantum x)"

definition fadd :: "real \<Rightarrow> real \<Rightarrow> real" where
  "fadd a b = rnd32 (a + b)"

definition fsub :: "real \<Rightarrow> real \<Rightarrow> real" where
  "fsub a b = rnd32 (a - b)"

definition fmul :: "real \<Rightarrow> real \<Rightarrow> real" where
  "fmul a b = rnd32 (a * b)"

text \<open>
  Conversions: integer to \<^verbatim>\<open>float\<close> rounds; \<^verbatim>\<open>float\<close> to \<^verbatim>\<open>long\<close> truncates towards
  zero. The program converts only values between 0 and \<open>2\<^sup>3\<^sup>0\<close>, which fit a \<^verbatim>\<open>long\<close>.
\<close>

definition float_of_long :: "int \<Rightarrow> real" where
  "float_of_long n = rnd32 (of_int n)"

definition float_of_uint32 :: "nat \<Rightarrow> real" where
  "float_of_uint32 n = rnd32 (of_int (int n))"

definition long_of_float :: "real \<Rightarrow> int" where
  "long_of_float x = (if 0 \<le> x then \<lfloor>x\<rfloor> else \<lceil>x\<rceil>)"

subsection \<open>Constants\<close>

definition US_ECHO_TIMEOUT_US :: nat where
  "US_ECHO_TIMEOUT_US = 30000"

definition SOUND_SPEED_MM_PER_US :: real where
  "SOUND_SPEED_MM_PER_US = rnd32 (343 / 1000)"

definition DIST_INVALID :: int where
  "DIST_INVALID = - 1"

definition DIST_MIN_MM :: int where
  "DIST_MIN_MM = 50"

definition DIST_MAX_MM :: int where
  "DIST_MAX_MM = 2000"

definition DIST_EMA_ALPHA :: real where
  "DIST_EMA_ALPHA = rnd32 (25 / 100)"

definition ENABLE_SLEW_LIMIT :: bool where
  "ENABLE_SLEW_LIMIT = True"

definition MAX_STEP_PER_SAMPLE_MM :: int where
  "MAX_STEP_PER_SAMPLE_MM = 80"

subsection \<open>Ranging\<close>

text \<open>
  \<^verbatim>\<open>readUltrasonicMillimetersRaw\<close>, as a function of the pulse width \<^verbatim>\<open>duration_us\<close> that
  \<^verbatim>\<open>pulseIn(PIN_US_ECHO, HIGH, US_ECHO_TIMEOUT_US)\<close> returns (zero on timeout). Driving the
  trigger pin has no effect on the result.
\<close>

definition readUltrasonicMillimetersRaw :: "nat \<Rightarrow> int" where
  "readUltrasonicMillimetersRaw duration_us =
     (if duration_us = 0 then DIST_INVALID
      else let mm = fmul (fmul (float_of_uint32 duration_us) SOUND_SPEED_MM_PER_US) (rnd32 (5 / 10))
           in long_of_float (fadd mm (rnd32 (5 / 10))))"

definition isDistanceValid :: "int \<Rightarrow> bool" where
  "isDistanceValid mm = (DIST_MIN_MM \<le> mm \<and> mm \<le> DIST_MAX_MM)"

definition clampStep :: "int \<Rightarrow> int \<Rightarrow> int \<Rightarrow> int" where
  "clampStep current target maxStep =
     (let delta = target - current
      in if maxStep < delta then current + maxStep
         else if delta < - maxStep then current - maxStep
         else target)"

subsection \<open>The distance filter in \<^verbatim>\<open>loop\<close>\<close>

text \<open>
  The three \<^verbatim>\<open>static\<close> filter variables of \<^verbatim>\<open>loop\<close> and their initial values. In the
  words of the specification: \<open>hasValidDistance\<close> is \<^emph>\<open>initialized\<close>, \<open>lastGoodMm\<close> is
  \<^emph>\<open>lastAccepted\<close>, \<open>distFiltered\<close> is \<^emph>\<open>smoothed\<close>.
\<close>

record filter_state =
  hasValidDistance :: bool
  lastGoodMm :: int
  distFiltered :: real

definition initial :: filter_state where
  "initial = \<lparr>hasValidDistance = False, lastGoodMm = 0, distFiltered = 0\<rparr>"

text \<open>Step 1 of \<^verbatim>\<open>loop\<close>: range check, sample-and-hold, seeding on the first valid reading.\<close>

definition accept :: "int \<Rightarrow> filter_state \<Rightarrow> filter_state" where
  "accept rawMm st =
     (if isDistanceValid rawMm
      then (let st1 = st\<lparr>lastGoodMm := rawMm\<rparr>
            in if \<not> hasValidDistance st1
               then st1\<lparr>distFiltered := float_of_long (lastGoodMm st1), hasValidDistance := True\<rparr>
               else st1)
      else st)"

text \<open>Step 2: the target distance.\<close>

definition selectTarget :: "filter_state \<Rightarrow> int" where
  "selectTarget st = (if hasValidDistance st then lastGoodMm st else 0)"

text \<open>The expression \<^verbatim>\<open>(long)(distFiltered + 0.5f)\<close>, used in step 3 and for the output.\<close>

definition roundMm :: "real \<Rightarrow> int" where
  "roundMm x = long_of_float (fadd x (rnd32 (5 / 10)))"

text \<open>Step 3: the slew limit.\<close>

definition slewLimit :: "filter_state \<Rightarrow> int \<Rightarrow> int" where
  "slewLimit st targetMm =
     (if ENABLE_SLEW_LIMIT \<and> hasValidDistance st
      then (let currentMm = roundMm (distFiltered st)
            in clampStep currentMm targetMm MAX_STEP_PER_SAMPLE_MM)
      else targetMm)"

text \<open>Step 4: \<^verbatim>\<open>distFiltered + DIST_EMA_ALPHA * ((float)targetMm - distFiltered)\<close>.\<close>

definition emaStep :: "real \<Rightarrow> int \<Rightarrow> real" where
  "emaStep filtered targetMm =
     fadd filtered (fmul DIST_EMA_ALPHA (fsub (float_of_long targetMm) filtered))"

definition smooth :: "filter_state \<Rightarrow> int \<Rightarrow> filter_state" where
  "smooth st targetMm =
     (if hasValidDistance st
      then st\<lparr>distFiltered := emaStep (distFiltered st) targetMm\<rparr>
      else st)"

text \<open>The printed \<^verbatim>\<open>dist_mm\<close> field.\<close>

definition outMm :: "filter_state \<Rightarrow> int" where
  "outMm st = (if hasValidDistance st then roundMm (distFiltered st) else 0)"

text \<open>
  One sample of \<^verbatim>\<open>loop\<close>, from the raw reading \<^verbatim>\<open>rawMm\<close> on: the value printed in the
  \<^verbatim>\<open>dist_mm\<close> column and the new filter variables. A call of \<^verbatim>\<open>loop\<close> that returns at
  the sample-interval check changes nothing and prints nothing; the button and
  potentiometer columns do not touch the filter.
\<close>

definition loop :: "int \<Rightarrow> filter_state \<Rightarrow> int \<times> filter_state" where
  "loop rawMm st =
     (let st1 = accept rawMm st;
          targetMm = slewLimit st1 (selectTarget st1);
          st2 = smooth st1 targetMm
      in (outMm st2, st2))"

text \<open>A sequence of samples: the final filter variables, and the printed values in order.\<close>

fun run :: "int list \<Rightarrow> filter_state \<Rightarrow> filter_state" where
  "run [] st = st"
| "run (r # rs) st = run rs (snd (loop r st))"

fun outputs :: "int list \<Rightarrow> filter_state \<Rightarrow> int list" where
  "outputs [] st = []"
| "outputs (r # rs) st = fst (loop r st) # outputs rs (snd (loop r st))"

text \<open>The invariant of the filter variables once a valid reading has been seen.\<close>

definition filter_ok :: "filter_state \<Rightarrow> bool" where
  "filter_ok st =
     (hasValidDistance st \<longrightarrow>
        DIST_MIN_MM \<le> lastGoodMm st \<and> lastGoodMm st \<le> DIST_MAX_MM \<and>
        of_int DIST_MIN_MM \<le> distFiltered st \<and> distFiltered st \<le> of_int DIST_MAX_MM \<and>
        rnd32 (distFiltered st) = distFiltered st)"

section \<open>Properties of the rounding\<close>

lemma pow2_pos [simp]: "0 < pow2 e"
  by (simp add: pow2_def)

lemma pow2_nonneg [simp]: "0 \<le> pow2 e"
  by (simp add: pow2_def)

lemma pow2_neq0 [simp]: "pow2 e \<noteq> 0"
  by (simp add: pow2_def)

lemma pow2_add: "pow2 (a + b) = pow2 a * pow2 b"
  by (simp add: pow2_def power_int_add)

lemma pow2_diff: "pow2 (a - b) = pow2 a / pow2 b"
  by (simp add: pow2_def power_int_diff)

lemma pow2_0 [simp]: "pow2 0 = 1"
  by (simp add: pow2_def)

lemma pow2_nat: "0 \<le> e \<Longrightarrow> pow2 e = 2 ^ nat e"
  by (simp add: pow2_def power_int_def)

lemma pow2_strict_mono: "a < b \<Longrightarrow> pow2 a < pow2 b"
  unfolding pow2_def by (rule power_int_strict_increasing) simp_all

lemma pow2_mono: "a \<le> b \<Longrightarrow> pow2 a \<le> pow2 b"
  unfolding pow2_def by (rule power_int_increasing) simp_all

lemma pow2_less_iff [simp]: "pow2 a < pow2 b \<longleftrightarrow> a < b"
  using pow2_strict_mono [of a b] pow2_mono [of b a] by (auto simp: not_less [symmetric])

lemma pow2_le_iff [simp]: "pow2 a \<le> pow2 b \<longleftrightarrow> a \<le> b"
  using pow2_strict_mono [of b a] pow2_mono [of a b] by (auto simp: not_le [symmetric])

lemma pow2_Suc: "pow2 (e + 1) = 2 * pow2 e"
  using pow2_add [of e 1] by (simp add: pow2_def)

lemma pow2_pred: "pow2 e = 2 * pow2 (e - 1)"
  using pow2_Suc [of "e - 1"] by simp

lemma pow2_up24: "pow2 (e + 1) = 2 ^ 24 * pow2 (e - 23)"
proof -
  have "pow2 (e - 23 + 24) = pow2 (e - 23) * pow2 24" by (rule pow2_add)
  moreover have "e - 23 + 24 = e + 1" by simp
  moreover have "pow2 24 = 2 ^ 24" by (simp add: pow2_nat)
  ultimately show ?thesis by (simp only: mult.commute)
qed

lemma pow2_up23: "pow2 e = 2 ^ 23 * pow2 (e - 23)"
proof -
  have "pow2 (e - 23 + 23) = pow2 (e - 23) * pow2 23" by (rule pow2_add)
  moreover have "e - 23 + 23 = e" by simp
  moreover have "pow2 23 = 2 ^ 23" by (simp add: pow2_nat)
  ultimately show ?thesis by (simp only: mult.commute)
qed

lemma rne_of_int [simp]: "rne (of_int n) = n"
  by (simp add: rne_def)

lemma rne_upper: "of_int (rne x) \<le> x + 1/2"
  unfolding rne_def Let_def by (auto; linarith)

lemma rne_lower: "x - 1/2 \<le> of_int (rne x)"
  unfolding rne_def Let_def by (auto; linarith)

lemma rne_err: "\<bar>of_int (rne x) - x\<bar> \<le> 1/2"
  using rne_upper [of x] rne_lower [of x] by linarith

lemma rne_floor_cases: "rne x = \<lfloor>x\<rfloor> \<or> rne x = \<lfloor>x\<rfloor> + 1"
  unfolding rne_def Let_def by auto

lemma rne_mono: "x \<le> y \<Longrightarrow> rne x \<le> rne y"
proof -
  assume xy: "x \<le> y"
  have fl: "\<lfloor>x\<rfloor> \<le> \<lfloor>y\<rfloor>" using xy by (rule floor_mono)
  show ?thesis
  proof (cases "\<lfloor>x\<rfloor> = \<lfloor>y\<rfloor>")
    case True
    then show ?thesis using xy unfolding rne_def Let_def by auto
  next
    case False
    then have "\<lfloor>x\<rfloor> + 1 \<le> \<lfloor>y\<rfloor>" using fl by linarith
    moreover have "rne x \<le> \<lfloor>x\<rfloor> + 1" using rne_floor_cases [of x] by linarith
    moreover have "\<lfloor>y\<rfloor> \<le> rne y" using rne_floor_cases [of y] by linarith
    ultimately show ?thesis by linarith
  qed
qed

lemma rne_minus: "rne (- x) = - rne x"
proof (cases "x = of_int \<lfloor>x\<rfloor>")
  case True
  then obtain n where "x = of_int n" by metis
  then show ?thesis by (simp flip: of_int_minus)
next
  case False
  then have "\<lceil>x\<rceil> = \<lfloor>x\<rfloor> + 1" by (simp add: ceiling_altdef)
  then have fm: "\<lfloor>- x\<rfloor> = - \<lfloor>x\<rfloor> - 1" by (simp add: ceiling_def)
  show ?thesis unfolding rne_def Let_def fm using False
    by (auto; linarith?)
qed

lemma rne_le_of_int: "x \<le> of_int n \<Longrightarrow> rne x \<le> n"
  using rne_mono [of x "of_int n"] by simp

lemma rne_ge_of_int: "of_int n \<le> x \<Longrightarrow> n \<le> rne x"
  using rne_mono [of "of_int n" x] by simp

lemma expo_bounds:
  assumes "x \<noteq> 0"
  shows "pow2 (expo x) \<le> \<bar>x\<bar>" and "\<bar>x\<bar> < pow2 (expo x + 1)"
proof -
  have "pow2 (expo x) \<le> \<bar>x\<bar> \<and> \<bar>x\<bar> < pow2 (expo x + 1)"
  proof (cases "1 \<le> \<bar>x\<bar>")
    case True
    define n where "n = \<lfloor>\<bar>x\<bar>\<rfloor>"
    have n1: "1 \<le> n" using True by (simp add: n_def)
    then have bl: "1 \<le> bitlen n" by (simp add: bitlen_alt_def)
    have e: "expo x = bitlen n - 1" using True by (simp add: expo_def n_def)
    from bitlen_bounds [of n] n1
    have b: "2 ^ nat (bitlen n - 1) \<le> n" "n < 2 ^ nat (bitlen n)" by simp_all
    have "(2::real) ^ nat (bitlen n - 1) \<le> of_int n" using b(1)
      by (metis of_int_le_iff of_int_numeral of_int_power)
    also have "\<dots> \<le> \<bar>x\<bar>" by (simp add: n_def)
    finally have lo: "pow2 (expo x) \<le> \<bar>x\<bar>" using bl by (simp add: e pow2_nat)
    have "n + 1 \<le> 2 ^ nat (bitlen n)" using b(2) by simp
    then have "of_int (n + 1) \<le> (2::real) ^ nat (bitlen n)"
      by (metis of_int_le_iff of_int_numeral of_int_power)
    moreover have "\<bar>x\<bar> < of_int (n + 1)" unfolding n_def by linarith
    ultimately have "\<bar>x\<bar> < 2 ^ nat (bitlen n)" by linarith
    then have hi: "\<bar>x\<bar> < pow2 (expo x + 1)" using bl by (simp add: e pow2_nat)
    from lo hi show ?thesis by simp
  next
    case False
    define y where "y = 1 / \<bar>x\<bar>"
    define m where "m = \<lceil>y\<rceil> - 1"
    have xpos: "0 < \<bar>x\<bar>" using assms by simp
    have y1: "1 < y" using False xpos by (simp add: y_def)
    then have "2 \<le> \<lceil>y\<rceil>" by linarith
    then have m1: "1 \<le> m" by (simp add: m_def)
    then have bl: "1 \<le> bitlen m" by (simp add: bitlen_alt_def)
    have e: "expo x = - bitlen m" using False by (simp add: expo_def m_def y_def)
    have my: "of_int m < y" "y \<le> of_int m + 1" unfolding m_def by linarith+
    from bitlen_bounds [of m] m1
    have b: "2 ^ nat (bitlen m - 1) \<le> m" "m < 2 ^ nat (bitlen m)" by simp_all
    have "(2::real) ^ nat (bitlen m - 1) \<le> of_int m" using b(1)
      by (metis of_int_le_iff of_int_numeral of_int_power)
    moreover have "pow2 (bitlen m - 1) = 2 ^ nat (bitlen m - 1)" using bl by (simp add: pow2_nat)
    ultimately have ylo: "pow2 (bitlen m - 1) < y" using my(1) by linarith
    have "m + 1 \<le> 2 ^ nat (bitlen m)" using b(2) by simp
    then have "of_int (m + 1) \<le> (2::real) ^ nat (bitlen m)"
      by (metis of_int_le_iff of_int_numeral of_int_power)
    moreover have "pow2 (bitlen m) = 2 ^ nat (bitlen m)" using bl by (simp add: pow2_nat)
    ultimately have yhi: "y \<le> pow2 (bitlen m)" using my(2) by simp
    have xy: "\<bar>x\<bar> = 1 / y" using xpos by (simp add: y_def)
    have ypos: "0 < y" using y1 by simp
    have "1 / pow2 (bitlen m) \<le> 1 / y" using yhi ypos by (simp add: frac_le)
    moreover have "1 / pow2 (bitlen m) = pow2 (- bitlen m)"
      using pow2_diff [of 0 "bitlen m"] by simp
    ultimately have lo: "pow2 (expo x) \<le> \<bar>x\<bar>" by (simp add: e xy)
    have "1 / y < 1 / pow2 (bitlen m - 1)" using ylo by (simp add: frac_less2)
    moreover have "1 / pow2 (bitlen m - 1) = pow2 (- bitlen m + 1)"
      using pow2_diff [of 0 "bitlen m - 1"] by simp
    ultimately have hi: "\<bar>x\<bar> < pow2 (expo x + 1)" by (simp add: e xy)
    from lo hi show ?thesis by simp
  qed
  then show "pow2 (expo x) \<le> \<bar>x\<bar>" and "\<bar>x\<bar> < pow2 (expo x + 1)" by simp_all
qed

lemma expo_unique:
  assumes "pow2 e \<le> \<bar>x\<bar>" and "\<bar>x\<bar> < pow2 (e + 1)"
  shows "expo x = e"
proof -
  have "0 < \<bar>x\<bar>" using assms(1) pow2_pos [of e] by linarith
  then have x0: "x \<noteq> 0" by simp
  note b = expo_bounds [OF x0]
  have "pow2 e < pow2 (expo x + 1)" using assms(1) b(2) by linarith
  then have "e < expo x + 1" by simp
  moreover have "pow2 (expo x) < pow2 (e + 1)" using assms(2) b(1) by linarith
  then have "expo x < e + 1" by simp
  ultimately show ?thesis by linarith
qed

lemma expo_minus [simp]: "expo (- x) = expo x"
  by (simp add: expo_def)

lemma expo_lt: "x \<noteq> 0 \<Longrightarrow> \<bar>x\<bar> < pow2 k \<Longrightarrow> expo x < k"
  using expo_bounds(1) [of x] pow2_less_iff [of "expo x" k] by linarith

lemma expo_ge: "pow2 k \<le> \<bar>x\<bar> \<Longrightarrow> k \<le> expo x"
proof -
  assume a: "pow2 k \<le> \<bar>x\<bar>"
  have "0 < \<bar>x\<bar>" using a pow2_pos [of k] by linarith
  then have "x \<noteq> 0" by simp
  then have "\<bar>x\<bar> < pow2 (expo x + 1)" by (rule expo_bounds)
  then have "pow2 k < pow2 (expo x + 1)" using a by linarith
  then show ?thesis by simp
qed


lemma rne_le_double: "0 \<le> t \<Longrightarrow> of_int (rne t) \<le> 2 * t"
proof (cases "t < 1/2")
  case True
  assume "0 \<le> t"
  then have "\<lfloor>t\<rfloor> = 0" using True by linarith
  then have "rne t = 0" using True by (simp add: rne_def)
  then show ?thesis using \<open>0 \<le> t\<close> by simp
next
  case False
  then show ?thesis using rne_upper [of t] by linarith
qed

lemma quantum_pos [simp]: "0 < quantum x"
  by (simp add: quantum_def)

lemma quantum_nonneg [simp]: "0 \<le> quantum x"
  by (simp add: quantum_def)

lemma quantum_neq0 [simp]: "quantum x \<noteq> 0"
  by (simp add: quantum_def)

lemma quantum_minus [simp]: "quantum (- x) = quantum x"
  by (simp add: quantum_def)

lemma rnd32_0 [simp]: "rnd32 0 = 0"
  by (simp add: rnd32_def)

lemma rnd32_minus: "rnd32 (- x) = - rnd32 x"
  by (simp add: rnd32_def rne_minus)

lemma rnd32_err_quantum: "\<bar>rnd32 x - x\<bar> \<le> quantum x / 2"
proof (cases "x = 0")
  case True
  then show ?thesis by simp
next
  case False
  define q where "q = quantum x"
  have q: "0 < q" by (simp add: q_def)
  have "rnd32 x - x = (of_int (rne (x / q)) - x / q) * q"
    using False q by (simp add: rnd32_def q_def algebra_simps)
  then have "\<bar>rnd32 x - x\<bar> = \<bar>of_int (rne (x / q)) - x / q\<bar> * q"
    using q by (simp add: abs_mult)
  also have "\<dots> \<le> (1/2) * q"
    using rne_err [of "x / q"] q by (intro mult_right_mono) simp_all
  finally show ?thesis by (simp add: q_def)
qed

lemma quantum_le:
  assumes "x \<noteq> 0" and "\<bar>x\<bar> < pow2 k" and "- 125 \<le> k"
  shows "quantum x \<le> pow2 (k - 24)"
proof -
  have "expo x < k" using assms(1,2) by (rule expo_lt)
  then have "max (expo x) (- 126) - 23 \<le> k - 24" using assms(3) by simp
  then show ?thesis unfolding quantum_def by simp
qed

lemma rnd32_err:
  assumes "\<bar>x\<bar> < pow2 k" and "- 125 \<le> k"
  shows "\<bar>rnd32 x - x\<bar> \<le> pow2 (k - 25)"
proof (cases "x = 0")
  case True
  then show ?thesis by simp
next
  case False
  have "quantum x \<le> pow2 (k - 24)" using False assms by (rule quantum_le)
  moreover have "pow2 (k - 24) = 2 * pow2 (k - 25)"
    using pow2_pred [of "k - 24"] by simp
  ultimately show ?thesis using rnd32_err_quantum [of x] by linarith
qed

lemma rnd32_le_double: "0 \<le> x \<Longrightarrow> rnd32 x \<le> 2 * x"
proof (cases "x = 0")
  case True
  then show ?thesis by simp
next
  case False
  assume "0 \<le> x"
  define q where "q = quantum x"
  have q: "0 < q" by (simp add: q_def)
  have "0 \<le> x / q" using \<open>0 \<le> x\<close> q by simp
  then have "of_int (rne (x / q)) \<le> 2 * (x / q)" by (rule rne_le_double)
  then have "of_int (rne (x / q)) * q \<le> 2 * (x / q) * q"
    using q by (intro mult_right_mono) simp_all
  then show ?thesis using False q by (simp add: rnd32_def q_def)
qed

lemma rnd32_quantum_mult:
  assumes "x \<noteq> 0" and "x / quantum x = of_int m"
  shows "rnd32 x = x"
proof -
  have "rnd32 x = of_int m * quantum x" using assms by (simp add: rnd32_def)
  also have "\<dots> = x" using assms(2) quantum_pos [of x]
    by (metis nonzero_divide_eq_eq less_irrefl)
  finally show ?thesis .
qed

lemma expo_int_pow2:
  assumes "n \<noteq> 0"
  shows "expo (of_int n * pow2 j) = bitlen \<bar>n\<bar> - 1 + j"
proof (rule expo_unique)
  have n1: "0 < \<bar>n\<bar>" using assms by simp
  then have bl: "1 \<le> bitlen \<bar>n\<bar>" by (simp add: bitlen_alt_def)
  from bitlen_bounds [OF n1]
  have b: "2 ^ nat (bitlen \<bar>n\<bar> - 1) \<le> \<bar>n\<bar>" "\<bar>n\<bar> < 2 ^ nat (bitlen \<bar>n\<bar>)" by simp_all
  have "(2::real) ^ nat (bitlen \<bar>n\<bar> - 1) \<le> of_int \<bar>n\<bar>" using b(1)
    by (metis of_int_le_iff of_int_numeral of_int_power)
  moreover have "pow2 (bitlen \<bar>n\<bar> - 1) = 2 ^ nat (bitlen \<bar>n\<bar> - 1)"
    using bl by (simp add: pow2_nat)
  ultimately have lo: "pow2 (bitlen \<bar>n\<bar> - 1) \<le> \<bar>of_int n\<bar>" by simp
  have "of_int \<bar>n\<bar> < (2::real) ^ nat (bitlen \<bar>n\<bar>)" using b(2)
    by (metis of_int_less_iff of_int_numeral of_int_power)
  moreover have "pow2 (bitlen \<bar>n\<bar>) = 2 ^ nat (bitlen \<bar>n\<bar>)"
    using bl by (simp add: pow2_nat)
  ultimately have hi: "\<bar>of_int n\<bar> < pow2 (bitlen \<bar>n\<bar>)" by simp
  have "pow2 (bitlen \<bar>n\<bar> - 1 + j) = pow2 (bitlen \<bar>n\<bar> - 1) * pow2 j" by (rule pow2_add)
  also have "\<dots> \<le> \<bar>of_int n\<bar> * pow2 j" using lo by (intro mult_right_mono) simp_all
  finally show "pow2 (bitlen \<bar>n\<bar> - 1 + j) \<le> \<bar>of_int n * pow2 j\<bar>" by (simp add: abs_mult)
  have "\<bar>of_int n * pow2 j\<bar> = \<bar>of_int n\<bar> * pow2 j" by (simp add: abs_mult)
  also have "\<dots> < pow2 (bitlen \<bar>n\<bar>) * pow2 j" using hi by (intro mult_strict_right_mono) simp_all
  also have "\<dots> = pow2 (bitlen \<bar>n\<bar> - 1 + j + 1)" using pow2_add [of "bitlen \<bar>n\<bar>" j] by (simp add: algebra_simps)
  finally show "\<bar>of_int n * pow2 j\<bar> < pow2 (bitlen \<bar>n\<bar> - 1 + j + 1)" .
qed

lemma pow2_of_int: "0 \<le> k \<Longrightarrow> pow2 k = of_int (2 ^ nat k)"
  by (simp add: pow2_nat)

lemma rnd32_repr_lt:
  assumes "\<bar>n\<bar> < 2 ^ 24" and "- 149 \<le> j"
  shows "rnd32 (of_int n * pow2 j) = of_int n * pow2 j"
proof (cases "n = 0")
  case True
  then show ?thesis by simp
next
  case False
  define x where "x = of_int n * pow2 j"
  have x0: "x \<noteq> 0" using False by (simp add: x_def)
  have ex: "expo x = bitlen \<bar>n\<bar> - 1 + j" unfolding x_def using False by (rule expo_int_pow2)
  have "bitlen \<bar>n\<bar> \<le> 24" using assms(1) by (simp add: bitlen_le_iff_power)
  define E where "E = max (expo x) (- 126) - 23"
  have Ej: "0 \<le> j - E" using \<open>bitlen \<bar>n\<bar> \<le> 24\<close> assms(2) by (simp add: E_def ex)
  have "x / quantum x = of_int n * (pow2 j / pow2 E)" by (simp add: x_def quantum_def E_def)
  also have "pow2 j / pow2 E = pow2 (j - E)" by (simp add: pow2_diff)
  also have "\<dots> = of_int (2 ^ nat (j - E))" using Ej by (rule pow2_of_int)
  finally have "x / quantum x = of_int (n * 2 ^ nat (j - E))" by simp
  with x0 have "rnd32 x = x" by (rule rnd32_quantum_mult)
  then show ?thesis by (simp add: x_def)
qed

lemma rnd32_repr:
  assumes "\<bar>n\<bar> \<le> 2 ^ 24" and "- 149 \<le> j"
  shows "rnd32 (of_int n * pow2 j) = of_int n * pow2 j"
proof (cases "\<bar>n\<bar> < 2 ^ 24")
  case True
  then show ?thesis using assms(2) by (rule rnd32_repr_lt)
next
  case False
  then have "\<bar>n\<bar> = 2 ^ 24" using assms(1) by simp
  then have "n = 2 ^ 24 \<or> n = - (2 ^ 24)" by linarith
  then have "of_int n * pow2 j = of_int (n div 2 ^ 24) * pow2 (j + 24)"
    by (auto simp: pow2_add pow2_nat)
  moreover have "\<bar>n div 2 ^ 24\<bar> < 2 ^ 24" using \<open>n = 2 ^ 24 \<or> n = - (2 ^ 24)\<close> by auto
  moreover have "- 149 \<le> j + 24" using assms(2) by simp
  ultimately show ?thesis using rnd32_repr_lt [of "n div 2 ^ 24" "j + 24"] by simp
qed

lemma rnd32_of_int: "\<bar>n\<bar> \<le> 2 ^ 24 \<Longrightarrow> rnd32 (of_int n) = of_int n"
  using rnd32_repr [of n 0] by simp

lemma rnd32_half_int: "\<bar>n\<bar> \<le> 2 ^ 24 \<Longrightarrow> rnd32 (of_int n / 2) = of_int n / 2"
  using rnd32_repr [of n "- 1"] by (simp add: pow2_def)


lemma rnd32_scaled_bound:
  assumes "x \<noteq> 0"
  shows "\<bar>rne (x / quantum x)\<bar> \<le> 2 ^ 24"
proof -
  define E where "E = max (expo x) (- 126)"
  have q: "quantum x = pow2 (E - 23)" by (simp add: quantum_def E_def)
  have "\<bar>x\<bar> < pow2 (expo x + 1)" using assms by (rule expo_bounds)
  also have "\<dots> \<le> pow2 (E + 1)" by (simp add: E_def)
  also have "\<dots> = 2 ^ 24 * pow2 (E - 23)" by (rule pow2_up24)
  finally have "\<bar>x\<bar> / quantum x < 2 ^ 24" by (simp add: q pos_divide_less_eq)
  moreover have "\<bar>x / quantum x\<bar> = \<bar>x\<bar> / quantum x" by simp
  ultimately have ab: "x / quantum x \<le> 2 ^ 24" "- (2 ^ 24) \<le> x / quantum x" by linarith+
  have "x / quantum x \<le> of_int (2 ^ 24)" using ab(1) by simp
  then have up: "rne (x / quantum x) \<le> 2 ^ 24" by (rule rne_le_of_int)
  have "of_int (- (2 ^ 24)) \<le> x / quantum x" using ab(2) by simp
  then have lo: "- (2 ^ 24) \<le> rne (x / quantum x)" by (rule rne_ge_of_int)
  from up lo show ?thesis by simp
qed

lemma quantum_exponent: "\<exists>j. - 149 \<le> j \<and> quantum x = pow2 j"
  unfolding quantum_def by (rule exI [of _ "max (expo x) (- 126) - 23"]) simp

lemma rnd32_idem [simp]: "rnd32 (rnd32 x) = rnd32 x"
proof (cases "x = 0")
  case True
  then show ?thesis by simp
next
  case False
  obtain j where j: "- 149 \<le> j" "quantum x = pow2 j" using quantum_exponent by blast
  have "rnd32 x = of_int (rne (x / quantum x)) * pow2 j" using False by (simp add: rnd32_def j(2))
  moreover have "\<bar>rne (x / quantum x)\<bar> \<le> 2 ^ 24" using False by (rule rnd32_scaled_bound)
  ultimately show ?thesis using rnd32_repr [of "rne (x / quantum x)" j] j(1) by simp
qed

lemma rnd32_nonneg: "0 \<le> x \<Longrightarrow> 0 \<le> rnd32 x"
proof (cases "x = 0")
  case True
  then show ?thesis by simp
next
  case False
  assume "0 \<le> x"
  then have "of_int 0 \<le> x / quantum x" by simp
  then have "0 \<le> rne (x / quantum x)" by (rule rne_ge_of_int)
  then show ?thesis using False by (simp add: rnd32_def)
qed

lemma rnd32_nonpos: "x \<le> 0 \<Longrightarrow> rnd32 x \<le> 0"
  using rnd32_nonneg [of "- x"] by (simp add: rnd32_minus)

lemma rnd32_mono_pos:
  assumes "0 < x" and "x \<le> y"
  shows "rnd32 x \<le> rnd32 y"
proof -
  have x0: "x \<noteq> 0" and y0: "y \<noteq> 0" and ypos: "0 < y" using assms by simp_all
  define Ex where "Ex = max (expo x) (- 126)"
  define Ey where "Ey = max (expo y) (- 126)"
  have qx: "quantum x = pow2 (Ex - 23)" and qy: "quantum y = pow2 (Ey - 23)"
    by (simp_all add: quantum_def Ex_def Ey_def)
  have "pow2 (expo x) \<le> \<bar>x\<bar>" using x0 by (rule expo_bounds)
  then have "pow2 (expo x) \<le> \<bar>y\<bar>" using assms by simp
  then have exy: "expo x \<le> expo y" by (rule expo_ge)
  then have Exy: "Ex \<le> Ey" by (simp add: Ex_def Ey_def)
  show ?thesis
  proof (cases "Ex = Ey")
    case True
    then have q: "quantum y = quantum x" by (simp add: qx qy)
    have "x / quantum x \<le> y / quantum x" using assms(2) by (simp add: divide_right_mono)
    then have "rne (x / quantum x) \<le> rne (y / quantum x)" by (rule rne_mono)
    then have "of_int (rne (x / quantum x)) * quantum x \<le> of_int (rne (y / quantum x)) * quantum x"
      by (intro mult_right_mono) simp_all
    then show ?thesis using x0 y0 by (simp add: rnd32_def q)
  next
    case False
    then have lt: "Ex + 1 \<le> Ey" using Exy by simp
    then have ey: "Ey = expo y" by (simp add: Ex_def Ey_def)
    have "\<bar>x\<bar> < pow2 (expo x + 1)" using x0 by (rule expo_bounds)
    also have "\<dots> \<le> pow2 (Ex + 1)" by (simp add: Ex_def)
    also have "\<dots> = 2 ^ 24 * pow2 (Ex - 23)" by (rule pow2_up24)
    finally have "x / quantum x \<le> of_int (2 ^ 24)" using assms(1) by (simp add: qx pos_divide_le_eq)
    then have "rne (x / quantum x) \<le> 2 ^ 24" by (rule rne_le_of_int)
    then have "of_int (rne (x / quantum x)) \<le> (2 ^ 24 :: real)"
      by (metis of_int_le_iff of_int_numeral of_int_power)
    then have "of_int (rne (x / quantum x)) * quantum x \<le> 2 ^ 24 * quantum x"
      by (intro mult_right_mono) simp_all
    also have "\<dots> = pow2 (Ex + 1)" using pow2_up24 [of Ex] by (simp add: qx)
    finally have "of_int (rne (x / quantum x)) * quantum x \<le> pow2 (Ex + 1)" .
    moreover have "rnd32 x = of_int (rne (x / quantum x)) * quantum x" using x0 by (simp add: rnd32_def)
    ultimately have up: "rnd32 x \<le> pow2 (Ex + 1)" by linarith
    have "pow2 (expo y) \<le> \<bar>y\<bar>" using y0 by (rule expo_bounds)
    moreover have "pow2 Ey = 2 ^ 23 * pow2 (Ey - 23)" by (rule pow2_up23)
    ultimately have "of_int (2 ^ 23) \<le> y / quantum y" using ypos by (simp add: qy ey pos_le_divide_eq)
    then have "2 ^ 23 \<le> rne (y / quantum y)" by (rule rne_ge_of_int)
    then have "(2 ^ 23 :: real) \<le> of_int (rne (y / quantum y))"
      by (metis of_int_le_iff of_int_numeral of_int_power)
    then have "2 ^ 23 * quantum y \<le> of_int (rne (y / quantum y)) * quantum y"
      by (intro mult_right_mono) simp_all
    moreover have "2 ^ 23 * quantum y = pow2 Ey" using pow2_up23 [of Ey] by (simp add: qy)
    moreover have "rnd32 y = of_int (rne (y / quantum y)) * quantum y" using y0 by (simp add: rnd32_def)
    ultimately have lo: "pow2 Ey \<le> rnd32 y" by linarith
    have "pow2 (Ex + 1) \<le> pow2 Ey" using lt by simp
    with up lo show ?thesis by linarith
  qed
qed

lemma rnd32_mono: "x \<le> y \<Longrightarrow> rnd32 x \<le> rnd32 y"
proof -
  assume xy: "x \<le> y"
  consider "0 < x" | "x \<le> 0" "0 \<le> y" | "y < 0" by linarith
  then show ?thesis
  proof cases
    case 1
    then show ?thesis using xy by (rule rnd32_mono_pos)
  next
    case 2
    then show ?thesis using rnd32_nonpos [of x] rnd32_nonneg [of y] by linarith
  next
    case 3
    then have "0 < - y" "- y \<le> - x" using xy by simp_all
    then have "rnd32 (- y) \<le> rnd32 (- x)" by (rule rnd32_mono_pos)
    then show ?thesis by (simp add: rnd32_minus)
  qed
qed

lemma rnd32_half:
  assumes "pow2 (- 125) \<le> \<bar>x\<bar>"
  shows "rnd32 (x / 2) = rnd32 x / 2"
proof -
  have "0 < \<bar>x\<bar>" using assms pow2_pos [of "- 125"] by linarith
  then have x0: "x \<noteq> 0" by simp
  have e125: "- 125 \<le> expo x" using assms by (rule expo_ge)
  have b: "pow2 (expo x) \<le> \<bar>x\<bar>" "\<bar>x\<bar> < pow2 (expo x + 1)" using x0 by (rule expo_bounds)+
  have h: "pow2 (expo x) = 2 * pow2 (expo x - 1)" "pow2 (expo x + 1) = 2 * pow2 (expo x)"
    by (rule pow2_pred, rule pow2_Suc)
  have "expo (x / 2) = expo x - 1"
  proof (rule expo_unique)
    show "pow2 (expo x - 1) \<le> \<bar>x / 2\<bar>" using b(1) h(1) by simp
    show "\<bar>x / 2\<bar> < pow2 (expo x - 1 + 1)" using b(2) h(2) by simp
  qed
  then have "quantum (x / 2) = pow2 (expo x - 1 - 23)" using e125 by (simp add: quantum_def)
  moreover have "quantum x = pow2 (expo x - 23)" using e125 by (simp add: quantum_def)
  moreover have "pow2 (expo x - 23) = 2 * pow2 (expo x - 1 - 23)"
    using pow2_pred [of "expo x - 23"] by (simp add: algebra_simps)
  ultimately have q: "quantum x = 2 * quantum (x / 2)" by simp
  then have "x / 2 / quantum (x / 2) = x / quantum x" by simp
  then show ?thesis using x0 by (simp add: rnd32_def q)
qed

lemma rnd32_between:
  assumes "rnd32 a = a" and "rnd32 b = b" and "a \<le> x" and "x \<le> b"
  shows "a \<le> rnd32 x" and "rnd32 x \<le> b"
  using rnd32_mono [OF assms(3)] rnd32_mono [OF assms(4)] assms(1,2) by simp_all

section \<open>Properties of the filter step\<close>

lemma pow2_numeral: "pow2 (numeral k) = 2 ^ numeral k"
  by (simp add: pow2_def)

lemma pow2_neg_numeral: "pow2 (- numeral k) = 1 / 2 ^ numeral k"
  by (simp add: pow2_def power_int_minus_divide)

lemma pow2_1: "pow2 1 = 2"
  by (simp add: pow2_def)

lemma pow2_neg_1: "pow2 (- 1) = 1 / 2"
  by (simp add: pow2_def power_int_minus_divide)

lemmas pow2_eval = pow2_numeral pow2_neg_numeral pow2_1 pow2_neg_1

lemma rnd32_half_const: "rnd32 (1 / 2) = 1 / 2"
  using rnd32_repr [of 1 "- 1"] by (simp add: pow2_eval)

lemma rnd32_quarter_const: "rnd32 (1 / 4) = 1 / 4"
  using rnd32_repr [of 1 "- 2"] by (simp add: pow2_eval)

lemma DIST_EMA_ALPHA_eq: "DIST_EMA_ALPHA = 1 / 4"
  by (simp add: DIST_EMA_ALPHA_def rnd32_quarter_const)

lemma rne_near:
  assumes "of_int n - 1 / 2 < t" and "t < of_int n + 1 / 2"
  shows "rne t = n"
proof -
  have "of_int (rne t) \<le> t + 1 / 2" "t - 1 / 2 \<le> of_int (rne t)"
    by (rule rne_upper, rule rne_lower)
  then have "real_of_int (rne t) < of_int n + 1" "real_of_int n - 1 < of_int (rne t)"
    using assms by linarith+
  then have "rne t < n + 1" "n - 1 < rne t" by linarith+
  then show ?thesis by linarith
qed

lemma rnd32_at:
  assumes "pow2 e \<le> \<bar>x\<bar>" and "\<bar>x\<bar> < pow2 (e + 1)" and "- 126 \<le> e"
  shows "rnd32 x = of_int (rne (x / pow2 (e - 23))) * pow2 (e - 23)"
proof -
  have "expo x = e" using assms(1,2) by (rule expo_unique)
  then have q: "quantum x = pow2 (e - 23)" using assms(3) by (simp add: quantum_def)
  have "0 < \<bar>x\<bar>" using assms(1) pow2_pos [of e] by linarith
  then have "x \<noteq> 0" by simp
  then show ?thesis by (simp add: rnd32_def q)
qed

lemma SOUND_SPEED_MM_PER_US_eq: "SOUND_SPEED_MM_PER_US = 5754585 / 16777216"
proof -
  have "rne (343 / 1000 / pow2 (- 2 - 23)) = 11509170"
    by (rule rne_near) (simp_all add: pow2_eval)
  then show ?thesis
    unfolding SOUND_SPEED_MM_PER_US_def
    by (subst rnd32_at [where e = "- 2"]) (simp_all add: pow2_eval)
qed

lemma long_of_float_mono: "x \<le> y \<Longrightarrow> long_of_float x \<le> long_of_float y"
proof -
  assume xy: "x \<le> y"
  consider "0 \<le> x" | "x < 0" "0 \<le> y" | "y < 0" by linarith
  then show ?thesis
  proof cases
    case 1
    then show ?thesis using xy by (simp add: long_of_float_def floor_mono)
  next
    case 2
    then have "\<lceil>x\<rceil> \<le> 0" "0 \<le> \<lfloor>y\<rfloor>" by linarith+
    then have "\<lceil>x\<rceil> \<le> \<lfloor>y\<rfloor>" by linarith
    moreover have "long_of_float x = \<lceil>x\<rceil>" "long_of_float y = \<lfloor>y\<rfloor>"
      using 2 by (simp_all add: long_of_float_def)
    ultimately show ?thesis by simp
  next
    case 3
    then show ?thesis using xy by (simp add: long_of_float_def ceiling_mono)
  qed
qed

lemma long_of_float_of_int [simp]: "long_of_float (of_int n) = n"
  by (simp add: long_of_float_def)

lemma roundMm_mono: "x \<le> y \<Longrightarrow> roundMm x \<le> roundMm y"
  unfolding roundMm_def fadd_def
  by (intro long_of_float_mono rnd32_mono) simp

lemma roundMm_of_int:
  assumes "0 \<le> n" and "n < 2 ^ 23"
  shows "roundMm (of_int n) = n"
proof -
  have eq: "(of_int n :: real) + 1 / 2 = of_int (2 * n + 1) * pow2 (- 1)"
    by (simp add: pow2_eval field_simps)
  have "\<bar>2 * n + 1\<bar> \<le> 2 ^ 24" using assms by simp
  then have "rnd32 (of_int n + 1 / 2) = of_int n + 1 / 2"
    unfolding eq by (rule rnd32_repr) simp
  moreover have "\<lfloor>(of_int n :: real) + 1 / 2\<rfloor> = n" by linarith
  ultimately show ?thesis using assms(1)
    by (simp add: roundMm_def fadd_def rnd32_half_const long_of_float_def)
qed

lemma roundMm_near:
  assumes "0 \<le> s" and "s \<le> 2000"
  shows "s - 1 / 2 - 1 / 16384 < of_int (roundMm s)" and "of_int (roundMm s) \<le> s + 1 / 2 + 1 / 16384"
proof -
  define y where "y = rnd32 (s + 1 / 2)"
  have "\<bar>s + 1 / 2\<bar> < pow2 11" using assms by (simp add: pow2_eval)
  then have "\<bar>rnd32 (s + 1 / 2) - (s + 1 / 2)\<bar> \<le> pow2 (11 - 25)" by (rule rnd32_err) simp
  then have e: "\<bar>y - (s + 1 / 2)\<bar> \<le> 1 / 16384" by (simp add: y_def pow2_eval)
  have "0 \<le> y" unfolding y_def using assms by (intro rnd32_nonneg) simp
  then have r: "roundMm s = \<lfloor>y\<rfloor>"
    by (simp add: roundMm_def fadd_def rnd32_half_const long_of_float_def y_def)
  show "s - 1 / 2 - 1 / 16384 < of_int (roundMm s)" unfolding r using e by linarith
  show "of_int (roundMm s) \<le> s + 1 / 2 + 1 / 16384" unfolding r using e by linarith
qed

lemma clampStep_between:
  assumes "0 \<le> m"
  shows "(c \<le> clampStep c t m \<and> clampStep c t m \<le> t) \<or> (t \<le> clampStep c t m \<and> clampStep c t m \<le> c)"
  using assms by (auto simp: clampStep_def Let_def)

lemma clampStep_step: "0 \<le> m \<Longrightarrow> \<bar>clampStep c t m - c\<bar> \<le> m"
  by (auto simp: clampStep_def Let_def)

lemma clampStep_cases:
  "clampStep c t m = (if m < t - c then c + m else if t - c < - m then c - m else t)"
  by (simp add: clampStep_def Let_def)


lemma rnd32_ge_double: "x \<le> 0 \<Longrightarrow> 2 * x \<le> rnd32 x"
  using rnd32_le_double [of "- x"] by (simp add: rnd32_minus)

lemma float_of_long_exact: "\<bar>t\<bar> \<le> 2 ^ 24 \<Longrightarrow> float_of_long t = of_int t"
  by (simp add: float_of_long_def rnd32_of_int)

lemma ema_between_up:
  assumes s: "rnd32 s = s" and t: "\<bar>t\<bar> \<le> 2 ^ 24" and le: "s \<le> of_int t"
  defines "d2 \<equiv> fmul DIST_EMA_ALPHA (fsub (float_of_long t) s)"
  shows "0 \<le> d2" and "s + d2 \<le> of_int t" and "s \<le> fadd s d2" and "fadd s d2 \<le> of_int t"
proof -
  define d1 where "d1 = rnd32 (of_int t - s)"
  have d2: "d2 = rnd32 (d1 / 4)"
    using t by (simp add: d2_def d1_def fmul_def fsub_def DIST_EMA_ALPHA_eq float_of_long_exact)
  have "0 \<le> d1" unfolding d1_def using le by (intro rnd32_nonneg) simp
  moreover have "d1 \<le> 2 * (of_int t - s)" unfolding d1_def using le by (intro rnd32_le_double) simp
  moreover have "d2 \<le> 2 * (d1 / 4)" unfolding d2 using \<open>0 \<le> d1\<close> by (intro rnd32_le_double) simp
  moreover show nn: "0 \<le> d2" unfolding d2 using \<open>0 \<le> d1\<close> by (intro rnd32_nonneg) simp
  ultimately show up: "s + d2 \<le> of_int t" by argo
  have rt: "rnd32 (of_int t) = of_int t" using t by (rule rnd32_of_int)
  have "s \<le> s + d2" using nn by simp
  from rnd32_between [OF s rt this up]
  show "s \<le> fadd s d2" and "fadd s d2 \<le> of_int t" by (simp_all add: fadd_def)
qed

lemma ema_between_down:
  assumes s: "rnd32 s = s" and t: "\<bar>t\<bar> \<le> 2 ^ 24" and le: "of_int t \<le> s"
  defines "d2 \<equiv> fmul DIST_EMA_ALPHA (fsub (float_of_long t) s)"
  shows "d2 \<le> 0" and "of_int t \<le> s + d2" and "of_int t \<le> fadd s d2" and "fadd s d2 \<le> s"
proof -
  define d1 where "d1 = rnd32 (of_int t - s)"
  have d2: "d2 = rnd32 (d1 / 4)"
    using t by (simp add: d2_def d1_def fmul_def fsub_def DIST_EMA_ALPHA_eq float_of_long_exact)
  have "d1 \<le> 0" unfolding d1_def using le by (intro rnd32_nonpos) simp
  moreover have "2 * (of_int t - s) \<le> d1" unfolding d1_def using le by (intro rnd32_ge_double) simp
  moreover have "2 * (d1 / 4) \<le> d2" unfolding d2 using \<open>d1 \<le> 0\<close> by (intro rnd32_ge_double) simp
  moreover show np: "d2 \<le> 0" unfolding d2 using \<open>d1 \<le> 0\<close> by (intro rnd32_nonpos) simp
  ultimately show lo: "of_int t \<le> s + d2" by argo
  have rt: "rnd32 (of_int t) = of_int t" using t by (rule rnd32_of_int)
  have "s + d2 \<le> s" using np by simp
  from rnd32_between [OF rt s lo this]
  show "of_int t \<le> fadd s d2" and "fadd s d2 \<le> s" by (simp_all add: fadd_def)
qed

lemma ema_err:
  assumes s: "rnd32 s = s" and sb: "0 \<le> s" "s \<le> 2000" and tb: "0 \<le> t" "t \<le> 2000"
  shows "\<bar>emaStep s t - (s + (of_int t - s) / 4)\<bar> \<le> 1 / 8192"
proof -
  define d1 where "d1 = rnd32 (of_int t - s)"
  define d2 where "d2 = rnd32 (d1 / 4)"
  have t24: "\<bar>t\<bar> \<le> 2 ^ 24" using tb by simp
  have tr: "0 \<le> (of_int t :: real)" "(of_int t :: real) \<le> 2000" using tb by simp_all
  have d2': "fmul DIST_EMA_ALPHA (fsub (float_of_long t) s) = d2"
    using t24 by (simp add: d2_def d1_def fmul_def fsub_def DIST_EMA_ALPHA_eq float_of_long_exact)
  have "\<bar>of_int t - s\<bar> < pow2 11" using sb tr by (simp add: pow2_eval abs_if)
  then have "\<bar>rnd32 (of_int t - s) - (of_int t - s)\<bar> \<le> pow2 (11 - 25)" by (rule rnd32_err) simp
  then have e1: "\<bar>d1 - (of_int t - s)\<bar> \<le> 1 / 16384" by (simp add: d1_def pow2_eval)
  then have "\<bar>d1\<bar> \<le> 2001" using sb tr by (simp add: abs_if split: if_splits)
  then have "\<bar>d1 / 4\<bar> < pow2 9" by (simp add: pow2_eval)
  then have "\<bar>rnd32 (d1 / 4) - d1 / 4\<bar> \<le> pow2 (9 - 25)" by (rule rnd32_err) simp
  then have e2: "\<bar>d2 - d1 / 4\<bar> \<le> 1 / 65536" by (simp add: d2_def pow2_eval)
  have "0 \<le> s + d2 \<and> s + d2 \<le> 2000"
  proof (cases "s \<le> of_int t")
    case True
    from ema_between_up(1,2) [OF s t24 True] show ?thesis using sb tr by (simp add: d2')
  next
    case False
    then have "of_int t \<le> s" by simp
    from ema_between_down(1,2) [OF s t24 this] show ?thesis using sb tr by (simp add: d2')
  qed
  then have "\<bar>s + d2\<bar> < pow2 11" by (simp add: pow2_eval)
  then have "\<bar>rnd32 (s + d2) - (s + d2)\<bar> \<le> pow2 (11 - 25)" by (rule rnd32_err) simp
  then have e3: "\<bar>fadd s d2 - (s + d2)\<bar> \<le> 1 / 16384" by (simp add: fadd_def pow2_eval)
  show ?thesis unfolding emaStep_def d2' using e1 e2 e3 by argo
qed


lemma emaStep_up:
  assumes "rnd32 s = s" and "\<bar>t\<bar> \<le> 2 ^ 24" and "s \<le> of_int t"
  shows "s \<le> emaStep s t" and "emaStep s t \<le> of_int t"
  unfolding emaStep_def using ema_between_up(3,4) [OF assms] by simp_all

lemma emaStep_down:
  assumes "rnd32 s = s" and "\<bar>t\<bar> \<le> 2 ^ 24" and "of_int t \<le> s"
  shows "of_int t \<le> emaStep s t" and "emaStep s t \<le> s"
  unfolding emaStep_def using ema_between_down(3,4) [OF assms] by simp_all

lemma emaStep_repr [simp]: "rnd32 (emaStep s t) = emaStep s t"
  by (simp add: emaStep_def fadd_def)

lemma loop_valid:
  assumes "hasValidDistance (accept r st)"
  defines "st1 \<equiv> accept r st"
  defines "tgt \<equiv> clampStep (roundMm (distFiltered st1)) (lastGoodMm st1) MAX_STEP_PER_SAMPLE_MM"
  shows "snd (loop r st) = st1\<lparr>distFiltered := emaStep (distFiltered st1) tgt\<rparr>"
    and "fst (loop r st) = roundMm (emaStep (distFiltered st1) tgt)"
  using assms(1) unfolding st1_def tgt_def
  by (simp_all add: loop_def Let_def smooth_def slewLimit_def selectTarget_def outMm_def
        ENABLE_SLEW_LIMIT_def)

lemma loop_invalid:
  assumes "\<not> hasValidDistance (accept r st)"
  shows "snd (loop r st) = accept r st" and "fst (loop r st) = 0"
  using assms
  by (simp_all add: loop_def Let_def smooth_def slewLimit_def selectTarget_def outMm_def)

lemma fst_loop: "fst (loop r st) = outMm (snd (loop r st))"
  by (simp add: loop_def Let_def)

lemma accept_invalid: "\<not> isDistanceValid r \<Longrightarrow> accept r st = st"
  by (simp add: accept_def)

lemma accept_valid_init:
  "isDistanceValid r \<Longrightarrow> hasValidDistance st \<Longrightarrow> accept r st = st\<lparr>lastGoodMm := r\<rparr>"
  by (simp add: accept_def Let_def)

lemma accept_valid_uninit:
  "isDistanceValid r \<Longrightarrow> \<not> hasValidDistance st \<Longrightarrow>
   accept r st = st\<lparr>lastGoodMm := r, distFiltered := of_int r, hasValidDistance := True\<rparr>"
  by (simp add: accept_def Let_def isDistanceValid_def DIST_MIN_MM_def DIST_MAX_MM_def
        float_of_long_exact)

lemma accept_hasValid: "hasValidDistance (accept r st) \<longleftrightarrow> hasValidDistance st \<or> isDistanceValid r"
  by (simp add: accept_def Let_def)

lemma accept_ok: "filter_ok st \<Longrightarrow> filter_ok (accept r st)"
proof (cases "isDistanceValid r")
  case False
  assume "filter_ok st"
  then show ?thesis using False by (simp add: accept_invalid)
next
  case True
  assume ok: "filter_ok st"
  have r: "50 \<le> r" "r \<le> 2000" using True
    by (simp_all add: isDistanceValid_def DIST_MIN_MM_def DIST_MAX_MM_def)
  then have "\<bar>r\<bar> \<le> 2 ^ 24" by simp
  then have rr: "rnd32 (of_int r) = of_int r" by (rule rnd32_of_int)
  show ?thesis
  proof (cases "hasValidDistance st")
    case True
    then show ?thesis using ok r \<open>isDistanceValid r\<close>
      by (simp add: accept_valid_init filter_ok_def DIST_MIN_MM_def DIST_MAX_MM_def)
  next
    case False
    then show ?thesis using r rr \<open>isDistanceValid r\<close>
      by (simp add: accept_valid_uninit filter_ok_def DIST_MIN_MM_def DIST_MAX_MM_def)
  qed
qed


lemma roundMm_range:
  assumes "50 \<le> s" and "s \<le> 2000"
  shows "50 \<le> roundMm s" and "roundMm s \<le> 2000"
proof -
  have a: "roundMm 50 = 50" "roundMm 2000 = 2000"
    using roundMm_of_int [of 50] roundMm_of_int [of 2000] by simp_all
  have "roundMm 50 \<le> roundMm s" using assms(1) by (rule roundMm_mono)
  then show "50 \<le> roundMm s" by (simp only: a)
  have "roundMm s \<le> roundMm 2000" using assms(2) by (rule roundMm_mono)
  then show "roundMm s \<le> 2000" by (simp only: a)
qed

lemma slew_target_range:
  assumes "50 \<le> c" "c \<le> 2000" "50 \<le> L" "L \<le> 2000"
  shows "50 \<le> clampStep c L 80" and "clampStep c L 80 \<le> 2000"
  using assms clampStep_between [of 80 c L] by linarith+

lemma emaStep_between:
  assumes "rnd32 s = s" and "\<bar>t\<bar> \<le> 2 ^ 24"
  shows "(s \<le> emaStep s t \<and> emaStep s t \<le> of_int t) \<or> (of_int t \<le> emaStep s t \<and> emaStep s t \<le> s)"
proof (cases "s \<le> of_int t")
  case True
  then show ?thesis using emaStep_up [OF assms] by simp
next
  case False
  then have "of_int t \<le> s" by simp
  then show ?thesis using emaStep_down [OF assms] by simp
qed

lemma tick_range:
  assumes "rnd32 s = s" and "50 \<le> s" and "s \<le> 2000" and "50 \<le> L" and "L \<le> 2000"
  defines "tgt \<equiv> clampStep (roundMm s) L 80"
  shows "50 \<le> tgt" and "tgt \<le> 2000" and "50 \<le> emaStep s tgt" and "emaStep s tgt \<le> 2000"
proof -
  have c: "50 \<le> roundMm s" "roundMm s \<le> 2000" using assms(2,3) by (rule roundMm_range)+
  show t: "50 \<le> tgt" "tgt \<le> 2000"
    unfolding tgt_def using c assms(4,5) by (rule slew_target_range)+
  then have "\<bar>tgt\<bar> \<le> 2 ^ 24" by simp
  then have b: "(s \<le> emaStep s tgt \<and> emaStep s tgt \<le> of_int tgt) \<or>
      (of_int tgt \<le> emaStep s tgt \<and> emaStep s tgt \<le> s)"
    using assms(1) by (intro emaStep_between)
  have tr: "(50::real) \<le> of_int tgt" "(of_int tgt :: real) \<le> 2000" using t by simp_all
  from b show "50 \<le> emaStep s tgt"
  proof
    assume "s \<le> emaStep s tgt \<and> emaStep s tgt \<le> of_int tgt"
    then show ?thesis using assms(2) by linarith
  next
    assume "of_int tgt \<le> emaStep s tgt \<and> emaStep s tgt \<le> s"
    then show ?thesis using tr(1) by linarith
  qed
  from b show "emaStep s tgt \<le> 2000"
  proof
    assume "s \<le> emaStep s tgt \<and> emaStep s tgt \<le> of_int tgt"
    then show ?thesis using tr(2) by linarith
  next
    assume "of_int tgt \<le> emaStep s tgt \<and> emaStep s tgt \<le> s"
    then show ?thesis using assms(3) by linarith
  qed
qed

lemma tick_output_between:
  assumes "rnd32 s = s" and "50 \<le> s" and "s \<le> 2000" and "50 \<le> L" and "L \<le> 2000"
  defines "cur \<equiv> roundMm s"
  defines "tgt \<equiv> clampStep cur L 80"
  shows "(cur \<le> roundMm (emaStep s tgt) \<and> roundMm (emaStep s tgt) \<le> tgt) \<or>
         (tgt \<le> roundMm (emaStep s tgt) \<and> roundMm (emaStep s tgt) \<le> cur)"
proof -
  have t: "50 \<le> tgt" "tgt \<le> 2000"
    unfolding tgt_def cur_def using assms(1-5) by (rule tick_range)+
  then have t24: "\<bar>tgt\<bar> \<le> 2 ^ 24" and rt: "roundMm (of_int tgt) = tgt"
    by (simp_all add: roundMm_of_int)
  from emaStep_between [OF assms(1) t24] show ?thesis
  proof
    assume "s \<le> emaStep s tgt \<and> emaStep s tgt \<le> of_int tgt"
    then have "roundMm s \<le> roundMm (emaStep s tgt)" "roundMm (emaStep s tgt) \<le> roundMm (of_int tgt)"
      by (simp_all add: roundMm_mono)
    then show ?thesis by (simp add: rt cur_def)
  next
    assume "of_int tgt \<le> emaStep s tgt \<and> emaStep s tgt \<le> s"
    then have "roundMm (of_int tgt) \<le> roundMm (emaStep s tgt)" "roundMm (emaStep s tgt) \<le> roundMm s"
      by (simp_all add: roundMm_mono)
    then show ?thesis by (simp add: rt cur_def)
  qed
qed


lemma step_ok: "filter_ok st \<Longrightarrow> filter_ok (snd (loop r st))"
proof (cases "hasValidDistance (accept r st)")
  case False
  assume "filter_ok st"
  then have "filter_ok (accept r st)" by (rule accept_ok)
  then show ?thesis using False by (simp add: loop_invalid)
next
  case True
  assume "filter_ok st"
  then have ok: "filter_ok (accept r st)" by (rule accept_ok)
  define st1 where "st1 = accept r st"
  have f: "rnd32 (distFiltered st1) = distFiltered st1" "50 \<le> distFiltered st1"
    "distFiltered st1 \<le> 2000" "50 \<le> lastGoodMm st1" "lastGoodMm st1 \<le> 2000"
    using ok True by (simp_all add: st1_def filter_ok_def DIST_MIN_MM_def DIST_MAX_MM_def)
  from tick_range(3,4) [OF f] f(4,5) show ?thesis
    using True
    by (simp add: loop_valid filter_ok_def DIST_MIN_MM_def DIST_MAX_MM_def
          MAX_STEP_PER_SAMPLE_MM_def st1_def)
qed

lemma initial_ok: "filter_ok initial"
  by (simp add: filter_ok_def initial_def)

lemma run_ok: "filter_ok st \<Longrightarrow> filter_ok (run rs st)"
  by (induction rs arbitrary: st) (simp_all add: step_ok)

lemma run_append: "run (rs @ rs') st = run rs' (run rs st)"
  by (induction rs arbitrary: st) simp_all

lemma outputs_append: "outputs (rs @ rs') st = outputs rs st @ outputs rs' (run rs st)"
  by (induction rs arbitrary: st) simp_all

lemma length_outputs [simp]: "length (outputs rs st) = length rs"
  by (induction rs arbitrary: st) simp_all

lemma roundMm_numeral: "(numeral k :: int) < 2 ^ 23 \<Longrightarrow> roundMm (numeral k) = numeral k"
  using roundMm_of_int [of "numeral k"] by simp

lemma emaStep_int:
  assumes "\<bar>a\<bar> \<le> 2 ^ 21" and "\<bar>t\<bar> \<le> 2 ^ 21"
  shows "emaStep (of_int a) t = (3 * of_int a + of_int t) / 4"
proof -
  have t: "float_of_long t = of_int t" using assms(2) by (intro float_of_long_exact) simp
  have "\<bar>t - a\<bar> \<le> 2 ^ 24" using assms by simp
  then have "rnd32 (of_int (t - a)) = of_int (t - a)" by (rule rnd32_of_int)
  then have d1: "fsub (of_int t) (of_int a) = of_int (t - a)" by (simp add: fsub_def)
  have "rnd32 (of_int (t - a) * pow2 (- 2)) = of_int (t - a) * pow2 (- 2)"
    using \<open>\<bar>t - a\<bar> \<le> 2 ^ 24\<close> by (rule rnd32_repr) simp
  then have d2: "fmul DIST_EMA_ALPHA (of_int (t - a)) = of_int (t - a) * pow2 (- 2)"
    by (simp add: fmul_def DIST_EMA_ALPHA_eq pow2_eval)
  have "\<bar>3 * a + t\<bar> \<le> 2 ^ 24" using assms by simp
  then have "rnd32 (of_int (3 * a + t) * pow2 (- 2)) = of_int (3 * a + t) * pow2 (- 2)"
    by (rule rnd32_repr) simp
  moreover have "of_int a + of_int (t - a) * pow2 (- 2) = of_int (3 * a + t) * pow2 (- 2)"
    by (simp add: pow2_eval field_simps)
  ultimately have d3: "fadd (of_int a) (of_int (t - a) * pow2 (- 2)) = of_int (3 * a + t) * pow2 (- 2)"
    by (simp add: fadd_def)
  have "emaStep (of_int a) t = fadd (of_int a) (fmul DIST_EMA_ALPHA (fsub (of_int t) (of_int a)))"
    by (simp only: emaStep_def t)
  also have "\<dots> = of_int (3 * a + t) * pow2 (- 2)" by (simp only: d1 d2 d3)
  also have "\<dots> = (3 * of_int a + of_int t) / 4" by (simp add: pow2_eval)
  finally show ?thesis .
qed

lemma emaStep_numeral:
  "(numeral a :: int) \<le> 2 ^ 21 \<Longrightarrow> (numeral t :: int) \<le> 2 ^ 21 \<Longrightarrow>
   emaStep (numeral a) (numeral t) = (3 * numeral a + numeral t) / 4"
  using emaStep_int [of "numeral a" "numeral t"] by simp

lemma float_of_long_numeral:
  "(numeral k :: int) \<le> 2 ^ 24 \<Longrightarrow> float_of_long (numeral k) = numeral k"
  using float_of_long_exact [of "numeral k"] by simp

lemmas loop_eval =
  loop_def Let_def accept_def selectTarget_def slewLimit_def smooth_def outMm_def clampStep_def
  isDistanceValid_def initial_def DIST_INVALID_def DIST_MIN_MM_def DIST_MAX_MM_def
  ENABLE_SLEW_LIMIT_def MAX_STEP_PER_SAMPLE_MM_def
  roundMm_numeral emaStep_numeral float_of_long_numeral

section \<open>Sequences of samples\<close>

lemma step_hasValid:
  "hasValidDistance (snd (loop r st)) \<longleftrightarrow> hasValidDistance st \<or> isDistanceValid r"
  by (cases "hasValidDistance (accept r st)")
     (simp_all add: loop_valid loop_invalid accept_hasValid)


lemma run_hasValid_mono: "hasValidDistance st \<Longrightarrow> hasValidDistance (run rs st)"
  by (induction rs arbitrary: st) (simp_all add: step_hasValid)

lemma outputs_snoc: "outputs (rs @ [r]) st = outputs rs st @ [fst (loop r (run rs st))]"
  by (simp add: outputs_append)

lemma run_snoc: "run (rs @ [r]) st = snd (loop r (run rs st))"
  by (simp add: run_append)

lemma last_outputs: "rs \<noteq> [] \<Longrightarrow> last (outputs rs st) = outMm (run rs st)"
  by (induction rs rule: rev_induct) (simp_all add: outputs_snoc run_snoc fst_loop)

lemma valid_iff: "isDistanceValid V \<longleftrightarrow> 50 \<le> V \<and> V \<le> 2000"
  by (simp add: isDistanceValid_def DIST_MIN_MM_def DIST_MAX_MM_def)

lemma not_valid_iff: "\<not> isDistanceValid r \<longleftrightarrow> r < 50 \<or> 2000 < r"
  by (auto simp: isDistanceValid_def DIST_MIN_MM_def DIST_MAX_MM_def)

lemma invalid_sentinel: "\<not> isDistanceValid DIST_INVALID"
  by (simp add: isDistanceValid_def DIST_INVALID_def DIST_MIN_MM_def)

lemma reach_facts:
  assumes "hasValidDistance (run rs initial)"
  shows "rnd32 (distFiltered (run rs initial)) = distFiltered (run rs initial)"
    and "50 \<le> distFiltered (run rs initial)" and "distFiltered (run rs initial) \<le> 2000"
    and "50 \<le> lastGoodMm (run rs initial)" and "lastGoodMm (run rs initial) \<le> 2000"
  using run_ok [OF initial_ok, of rs] assms
  by (simp_all add: filter_ok_def DIST_MIN_MM_def DIST_MAX_MM_def)

lemma loop_seed:
  assumes "\<not> hasValidDistance st" and "50 \<le> V" and "V \<le> 2000"
  shows "loop V st = (V, st\<lparr>lastGoodMm := V, distFiltered := of_int V, hasValidDistance := True\<rparr>)"
proof -
  have v: "isDistanceValid V" using assms(2,3) by (simp add: valid_iff)
  have a: "accept V st = st\<lparr>lastGoodMm := V, distFiltered := of_int V, hasValidDistance := True\<rparr>"
    using v assms(1) by (rule accept_valid_uninit)
  have r: "roundMm (of_int V) = V" using assms(2,3) by (intro roundMm_of_int) simp_all
  have c: "clampStep V V MAX_STEP_PER_SAMPLE_MM = V"
    by (simp add: clampStep_def MAX_STEP_PER_SAMPLE_MM_def)
  have e: "emaStep (of_int V) V = of_int V"
    using assms(2,3) by (subst emaStep_int) simp_all
  have h: "hasValidDistance (accept V st)" by (simp add: a)
  show ?thesis
    using loop_valid [OF h]
    by (simp add: prod_eq_iff a r c e)
qed

lemma loop_uninit_rejected:
  assumes "\<not> hasValidDistance st" and "\<not> isDistanceValid r"
  shows "loop r st = (0, st)"
proof -
  have "\<not> hasValidDistance (accept r st)" using assms by (simp add: accept_hasValid)
  from loop_invalid [OF this] show ?thesis using assms(2) by (simp add: prod_eq_iff accept_invalid)
qed

lemma run_rejected:
  "\<not> hasValidDistance st \<Longrightarrow> \<forall>r \<in> set rs. \<not> isDistanceValid r \<Longrightarrow> run rs st = st"
  by (induction rs) (simp_all add: loop_uninit_rejected)

lemma outputs_rejected:
  "\<not> hasValidDistance st \<Longrightarrow> \<forall>r \<in> set rs. \<not> isDistanceValid r \<Longrightarrow>
   outputs rs st = replicate (length rs) 0"
  by (induction rs) (simp_all add: loop_uninit_rejected)



lemma step_output_range:
  assumes "filter_ok st" and "hasValidDistance (snd (loop r st))"
  shows "50 \<le> fst (loop r st)" and "fst (loop r st) \<le> 2000"
proof -
  have ok: "filter_ok (snd (loop r st))" using assms(1) by (rule step_ok)
  then have "50 \<le> distFiltered (snd (loop r st))" "distFiltered (snd (loop r st)) \<le> 2000"
    using assms(2) by (simp_all add: filter_ok_def DIST_MIN_MM_def DIST_MAX_MM_def)
  then have "50 \<le> roundMm (distFiltered (snd (loop r st)))"
    "roundMm (distFiltered (snd (loop r st))) \<le> 2000" by (rule roundMm_range)+
  then show "50 \<le> fst (loop r st)" and "fst (loop r st) \<le> 2000"
    using assms(2) by (simp_all add: fst_loop outMm_def)
qed

lemma outputs_cases:
  assumes "filter_ok st" and "x \<in> set (outputs rs st)"
  shows "x = 0 \<or> (50 \<le> x \<and> x \<le> 2000)"
  using assms
proof (induction rs arbitrary: st)
  case Nil
  then show ?case by simp
next
  case (Cons r rs)
  from Cons.prems(2) have "x = fst (loop r st) \<or> x \<in> set (outputs rs (snd (loop r st)))" by simp
  then show ?case
  proof
    assume x: "x = fst (loop r st)"
    show ?thesis
    proof (cases "hasValidDistance (snd (loop r st))")
      case True
      then show ?thesis using step_output_range [OF Cons.prems(1)] x by simp
    next
      case False
      then show ?thesis using x by (simp add: fst_loop outMm_def)
    qed
  next
    assume "x \<in> set (outputs rs (snd (loop r st)))"
    moreover have "filter_ok (snd (loop r st))" using Cons.prems(1) by (rule step_ok)
    ultimately show ?thesis by (rule Cons.IH [rotated])
  qed
qed

lemma accept_initialized_distFiltered:
  "hasValidDistance st \<Longrightarrow> distFiltered (accept r st) = distFiltered st"
  by (simp add: accept_def Let_def)

lemma step_initialized:
  fixes r :: int
  assumes ok: "filter_ok st" and hv: "hasValidDistance st"
  defines "L \<equiv> lastGoodMm (accept r st)"
  defines "tgt \<equiv> clampStep (roundMm (distFiltered st)) L MAX_STEP_PER_SAMPLE_MM"
  shows "distFiltered (snd (loop r st)) = emaStep (distFiltered st) tgt"
    and "fst (loop r st) = roundMm (emaStep (distFiltered st) tgt)"
    and "50 \<le> L" and "L \<le> 2000"
proof -
  have h: "hasValidDistance (accept r st)" using hv by (simp add: accept_hasValid)
  have d: "distFiltered (accept r st) = distFiltered st" using hv by (rule accept_initialized_distFiltered)
  show "distFiltered (snd (loop r st)) = emaStep (distFiltered st) tgt"
    by (simp add: loop_valid [OF h] d tgt_def L_def)
  show "fst (loop r st) = roundMm (emaStep (distFiltered st) tgt)"
    by (simp add: loop_valid [OF h] d tgt_def L_def)
  have "filter_ok (accept r st)" using ok by (rule accept_ok)
  then show "50 \<le> L" and "L \<le> 2000"
    using h by (simp_all add: filter_ok_def L_def DIST_MIN_MM_def DIST_MAX_MM_def)
qed

lemma tick_move_bound:
  assumes "rnd32 s = s" and "50 \<le> s" and "s \<le> 2000" and "50 \<le> L" and "L \<le> 2000"
  defines "tgt \<equiv> clampStep (roundMm s) L 80"
  shows "\<bar>emaStep s tgt - s\<bar> \<le> 41 / 2"
proof -
  have t: "50 \<le> tgt" "tgt \<le> 2000"
    unfolding tgt_def using assms(1-5) by (rule tick_range)+
  have near: "s - 1 / 2 - 1 / 16384 < of_int (roundMm s)" "of_int (roundMm s) \<le> s + 1 / 2 + 1 / 16384"
    using assms(2,3) by (intro roundMm_near; simp)+
  have "\<bar>tgt - roundMm s\<bar> \<le> 80" unfolding tgt_def by (rule clampStep_step) simp
  then have "\<bar>(of_int tgt :: real) - of_int (roundMm s)\<bar> \<le> 80"
    by (metis of_int_abs of_int_diff of_int_le_iff of_int_numeral)
  then have ts: "\<bar>of_int tgt - s\<bar> \<le> 81" using near by linarith
  have "\<bar>emaStep s tgt - (s + (of_int tgt - s) / 4)\<bar> \<le> 1 / 8192"
    using assms(1-3) t by (intro ema_err) simp_all
  then show ?thesis using ts by argo
qed

lemma step_gap:
  fixes V :: int
  assumes ok: "filter_ok st" and hv: "hasValidDistance st" and V: "50 \<le> V" "V \<le> 2000"
  defines "s \<equiv> distFiltered st"
  defines "s' \<equiv> distFiltered (snd (loop V st))"
  shows "\<bar>s' - of_int V\<bar> \<le> max (\<bar>s - of_int V\<bar> - 19) (3 / 4 * \<bar>s - of_int V\<bar> + 1 / 8192)"
    and "\<bar>V - roundMm s\<bar> \<le> 80 \<Longrightarrow> \<bar>s' - of_int V\<bar> \<le> 3 / 4 * \<bar>s - of_int V\<bar> + 1 / 8192"
proof -
  define tgt where "tgt = clampStep (roundMm s) V 80"
  have v: "isDistanceValid V" using V by (simp add: valid_iff)
  have L: "lastGoodMm (accept V st) = V" using v hv by (simp add: accept_valid_init)
  have f: "rnd32 s = s" "50 \<le> s" "s \<le> 2000"
    using ok hv by (simp_all add: filter_ok_def s_def DIST_MIN_MM_def DIST_MAX_MM_def)
  have s': "s' = emaStep s tgt"
    unfolding s'_def tgt_def s_def
    using step_initialized(1) [OF ok hv, of V] by (simp add: L MAX_STEP_PER_SAMPLE_MM_def)
  have t: "50 \<le> tgt" "tgt \<le> 2000"
    unfolding tgt_def using f V by (rule tick_range)+
  then have t24: "\<bar>tgt\<bar> \<le> 2 ^ 24" by simp
  have err: "\<bar>s' - (s + (of_int tgt - s) / 4)\<bar> \<le> 1 / 8192"
    unfolding s' using f t by (intro ema_err) simp_all
  have near: "s - 1 / 2 - 1 / 16384 < of_int (roundMm s)" "of_int (roundMm s) \<le> s + 1 / 2 + 1 / 16384"
    using f(2,3) by (intro roundMm_near; simp)+
  have unclamped: "\<bar>s' - of_int V\<bar> \<le> 3 / 4 * \<bar>s - of_int V\<bar> + 1 / 8192" if "tgt = V"
    using err unfolding that by argo
  have "80 < V - roundMm s \<or> V - roundMm s < - 80 \<or> tgt = V"
    by (simp add: tgt_def clampStep_cases)
  then consider "80 < V - roundMm s" | "V - roundMm s < - 80" | "tgt = V" by blast
  then show "\<bar>s' - of_int V\<bar> \<le> max (\<bar>s - of_int V\<bar> - 19) (3 / 4 * \<bar>s - of_int V\<bar> + 1 / 8192)"
  proof cases
    case 1
    then have tg: "tgt = roundMm s + 80" by (simp add: tgt_def clampStep_cases)
    then have tr: "(of_int tgt :: real) = of_int (roundMm s) + 80" by simp
    then have "s \<le> of_int tgt" using near(1) by linarith
    from emaStep_up [OF f(1) t24 this] have b: "s \<le> s'" "s' \<le> of_int tgt" by (simp_all add: s')
    have "tgt \<le> V" using 1 tg by simp
    then have "(of_int tgt :: real) \<le> of_int V" by simp
    then have "\<bar>s' - of_int V\<bar> \<le> \<bar>s - of_int V\<bar> - 19" using b err tr near(1) by argo
    then show ?thesis by simp
  next
    case 2
    then have tg: "tgt = roundMm s - 80" by (simp add: tgt_def clampStep_cases)
    then have tr: "(of_int tgt :: real) = of_int (roundMm s) - 80" by simp
    then have "of_int tgt \<le> s" using near(2) by linarith
    from emaStep_down [OF f(1) t24 this] have b: "of_int tgt \<le> s'" "s' \<le> s" by (simp_all add: s')
    have "V \<le> tgt" using 2 tg by simp
    then have "(of_int V :: real) \<le> of_int tgt" by simp
    then have "\<bar>s' - of_int V\<bar> \<le> \<bar>s - of_int V\<bar> - 19" using b err tr near(2) by argo
    then show ?thesis by simp
  next
    case 3
    then show ?thesis using unclamped by simp
  qed
  assume "\<bar>V - roundMm s\<bar> \<le> 80"
  then have "\<not> 80 < V - roundMm s" "\<not> V - roundMm s < - 80" by linarith+
  then have "tgt = V" by (simp add: tgt_def clampStep_cases)
  then show "\<bar>s' - of_int V\<bar> \<le> 3 / 4 * \<bar>s - of_int V\<bar> + 1 / 8192" by (rule unclamped)
qed

lemma run_replicate_Suc: "run (replicate (Suc n) V) st = snd (loop V (run (replicate n V) st))"
proof -
  have "replicate (Suc n) V = replicate n V @ [V]" by (simp add: replicate_append_same)
  then show ?thesis by (simp only: run_snoc)
qed

lemma gap_phase1:
  fixes V :: int
  assumes ok: "filter_ok st" and hv: "hasValidDistance st" and V: "50 \<le> V" "V \<le> 2000"
  shows "\<bar>distFiltered (run (replicate n V) st) - of_int V\<bar> \<le> max (1950 - 19 * real n) 76"
proof (induction n)
  case 0
  have "50 \<le> distFiltered st" "distFiltered st \<le> 2000"
    using ok hv by (simp_all add: filter_ok_def DIST_MIN_MM_def DIST_MAX_MM_def)
  moreover have "(50::real) \<le> of_int V" "(of_int V :: real) \<le> 2000" using V by simp_all
  ultimately show ?case by (simp add: abs_le_iff)
next
  case (Suc n)
  define x where "x = run (replicate n V) st"
  have okx: "filter_ok x" unfolding x_def using ok by (rule run_ok)
  have hvx: "hasValidDistance x" unfolding x_def using hv by (rule run_hasValid_mono)
  from step_gap(1) [OF okx hvx V] Suc.IH [folded x_def]
  show ?case unfolding run_replicate_Suc x_def [symmetric] by (simp add: algebra_simps) argo
qed

lemma gap_phase2:
  fixes V :: int
  assumes ok: "filter_ok st" and hv: "hasValidDistance st" and V: "50 \<le> V" "V \<le> 2000"
    and g: "\<bar>distFiltered st - of_int V\<bar> \<le> 76"
  shows "\<bar>distFiltered (run (replicate n V) st) - of_int V\<bar> \<le> (3 / 4) ^ n * 76 + 1 / 2048"
proof (induction n)
  case 0
  then show ?case using g by simp
next
  case (Suc n)
  define x where "x = run (replicate n V) st"
  have okx: "filter_ok x" unfolding x_def using ok by (rule run_ok)
  have hvx: "hasValidDistance x" unfolding x_def using hv by (rule run_hasValid_mono)
  have p: "(3 / 4 :: real) ^ n \<le> 1" by (simp add: power_le_one)
  have ih: "\<bar>distFiltered x - of_int V\<bar> \<le> (3 / 4) ^ n * 76 + 1 / 2048"
    using Suc.IH by (simp add: x_def)
  have q: "(3 / 4 :: real) ^ Suc n = 3 / 4 * (3 / 4) ^ n" by simp
  from step_gap(1) [OF okx hvx V] ih p
  have "\<bar>distFiltered (snd (loop V x)) - of_int V\<bar> \<le> (3 / 4) ^ Suc n * 76 + 1 / 2048"
    unfolding q by argo
  then show ?case unfolding run_replicate_Suc x_def [symmetric] .
qed

lemma converged_after_115:
  fixes V :: int
  assumes ok: "filter_ok st" and hv: "hasValidDistance st" and V: "50 \<le> V" "V \<le> 2000"
    and n: "115 \<le> n"
  shows "\<bar>distFiltered (run (replicate n V) st) - of_int V\<bar> < 1"
proof -
  define m where "m = n - 99"
  define x where "x = run (replicate 99 V) st"
  have m16: "16 \<le> m" and nm: "n = 99 + m" using n by (simp_all add: m_def)
  have okx: "filter_ok x" unfolding x_def using ok by (rule run_ok)
  have hvx: "hasValidDistance x" unfolding x_def using hv by (rule run_hasValid_mono)
  have "\<bar>distFiltered x - of_int V\<bar> \<le> max (1950 - 19 * real 99) 76"
    unfolding x_def using ok hv V by (rule gap_phase1)
  then have g: "\<bar>distFiltered x - of_int V\<bar> \<le> 76" by simp
  have r: "run (replicate n V) st = run (replicate m V) x"
    by (simp add: nm replicate_add run_append x_def)
  have "\<bar>distFiltered (run (replicate m V) x) - of_int V\<bar> \<le> (3 / 4) ^ m * 76 + 1 / 2048"
    using okx hvx V g by (rule gap_phase2)
  moreover have "(3 / 4 :: real) ^ m \<le> (3 / 4) ^ 16" using m16 by (intro power_decreasing) simp_all
  moreover have "(3 / 4 :: real) ^ 16 * 76 + 1 / 2048 < 1" by (simp add: power_divide)
  ultimately show ?thesis unfolding r by linarith
qed

lemma step_unclamped_persists:
  fixes V :: int
  assumes ok: "filter_ok st" and hv: "hasValidDistance st" and V: "50 \<le> V" "V \<le> 2000"
    and u: "\<bar>V - roundMm (distFiltered st)\<bar> \<le> 80"
  shows "\<bar>V - roundMm (distFiltered (snd (loop V st)))\<bar> \<le> 80"
proof -
  define s where "s = distFiltered st"
  have v: "isDistanceValid V" using V by (simp add: valid_iff)
  have L: "lastGoodMm (accept V st) = V" using v hv by (simp add: accept_valid_init)
  have f: "rnd32 s = s" "50 \<le> s" "s \<le> 2000"
    using ok hv by (simp_all add: filter_ok_def s_def DIST_MIN_MM_def DIST_MAX_MM_def)
  have "\<not> 80 < V - roundMm s" "\<not> V - roundMm s < - 80" using u by (simp_all add: s_def)
  then have t: "clampStep (roundMm s) V 80 = V" by (simp add: clampStep_cases)
  have "distFiltered (snd (loop V st)) = emaStep s (clampStep (roundMm s) V 80)"
    using step_initialized(1) [OF ok hv, of V] by (simp add: L MAX_STEP_PER_SAMPLE_MM_def s_def)
  then have s': "distFiltered (snd (loop V st)) = emaStep s V" by (simp only: t)
  have "(roundMm s \<le> roundMm (emaStep s V) \<and> roundMm (emaStep s V) \<le> V) \<or>
        (V \<le> roundMm (emaStep s V) \<and> roundMm (emaStep s V) \<le> roundMm s)"
    using tick_output_between [OF f V] by (simp only: t)
  moreover have "\<bar>V - roundMm s\<bar> \<le> 80" using u by (simp add: s_def)
  ultimately show ?thesis unfolding s' by linarith
qed

lemma gap_geometric:
  fixes V :: int
  assumes ok: "filter_ok st" and hv: "hasValidDistance st" and V: "50 \<le> V" "V \<le> 2000"
    and u: "\<bar>V - roundMm (distFiltered st)\<bar> \<le> 80"
  shows "\<bar>V - roundMm (distFiltered (run (replicate m V) st))\<bar> \<le> 80 \<and>
         \<bar>distFiltered (run (replicate m V) st) - of_int V\<bar>
           \<le> (3 / 4) ^ m * \<bar>distFiltered st - of_int V\<bar> + 1 / 2048"
proof (induction m)
  case 0
  then show ?case using u by simp
next
  case (Suc m)
  define x where "x = run (replicate m V) st"
  have okx: "filter_ok x" unfolding x_def using ok by (rule run_ok)
  have hvx: "hasValidDistance x" unfolding x_def using hv by (rule run_hasValid_mono)
  have ux: "\<bar>V - roundMm (distFiltered x)\<bar> \<le> 80" using Suc.IH by (simp add: x_def)
  have ih: "\<bar>distFiltered x - of_int V\<bar> \<le> (3 / 4) ^ m * \<bar>distFiltered st - of_int V\<bar> + 1 / 2048"
    using Suc.IH by (simp add: x_def)
  have q: "(3 / 4 :: real) ^ Suc m = 3 / 4 * (3 / 4) ^ m" by simp
  have a: "\<bar>V - roundMm (distFiltered (snd (loop V x)))\<bar> \<le> 80"
    using okx hvx V ux by (rule step_unclamped_persists)
  from step_gap(2) [OF okx hvx V ux] ih
  have b: "\<bar>distFiltered (snd (loop V x)) - of_int V\<bar>
             \<le> (3 / 4) ^ Suc m * \<bar>distFiltered st - of_int V\<bar> + 1 / 2048"
    unfolding q by argo
  from a b show ?case unfolding run_replicate_Suc x_def [symmetric] by simp
qed

section \<open>The ranging computation\<close>

lemma speed_tie_exact:
  fixes M :: int
  assumes odd: "odd M" and M3: "3 \<le> M" and M14: "M < 2 ^ 14"
  shows "rnd32 (of_int M * (1 - 11 / 719323136)) = of_int M"
proof -
  define z :: real where "z = of_int M * (1 - 11 / 719323136)"
  define e where "e = expo (of_int M)"
  have M0: "(of_int M :: real) \<noteq> 0" using M3 by simp
  have Mabs: "\<bar>of_int M :: real\<bar> = of_int M" using M3 by simp
  have b: "pow2 e \<le> of_int M" "of_int M < pow2 (e + 1)"
    using expo_bounds [OF M0] by (simp_all add: e_def Mabs)
  have "pow2 1 \<le> \<bar>of_int M :: real\<bar>" using M3 by (simp add: pow2_eval)
  then have e1: "1 \<le> e" unfolding e_def by (rule expo_ge)
  have "\<bar>of_int M :: real\<bar> < pow2 14" using M14 M3 by (simp add: pow2_eval)
  then have e13: "e < 14" unfolding e_def using M0 by (intro expo_lt)
  have pe: "pow2 e = of_int (2 ^ nat e)" using e1 by (intro pow2_of_int) simp
  have "2 ^ nat e \<le> M" using b(1) unfolding pe by (simp only: of_int_le_iff)
  moreover have "even ((2::int) ^ nat e)" using e1 by simp
  then have "2 ^ nat e \<noteq> M" using odd by auto
  ultimately have "2 ^ nat e + 1 \<le> M" by linarith
  then have "of_int (2 ^ nat e + 1) \<le> (of_int M :: real)" by (simp only: of_int_le_iff)
  then have lo1: "pow2 e + 1 \<le> of_int M" by (simp add: pe)
  have Mr: "(0::real) < of_int M" "(of_int M :: real) < 16384" using M3 M14 by simp_all
  have zdef: "z = of_int M - of_int M * (11 / 719323136)" by (simp add: z_def algebra_simps)
  have zlo: "pow2 e \<le> z" using lo1 Mr unfolding zdef by linarith
  have zhi: "z < pow2 (e + 1)" using b(2) Mr unfolding zdef by linarith
  have zpos: "0 < z" using zlo pow2_pos [of e] by linarith
  have r: "rnd32 z = of_int (rne (z / pow2 (e - 23))) * pow2 (e - 23)"
    using zlo zhi zpos e1 by (intro rnd32_at) simp_all
  define P where "P = pow2 (23 - e)"
  have Ppos: "0 < P" by (simp add: P_def)
  have Pi: "P = of_int (2 ^ nat (23 - e))" unfolding P_def using e13 by (intro pow2_of_int) simp
  have q: "pow2 (e - 23) = 1 / P" using pow2_diff [of 0 "23 - e"] by (simp add: P_def)
  have "of_int M * P < pow2 (e + 1) * P" using b(2) Ppos by (rule mult_strict_right_mono)
  also have "pow2 (e + 1) * P = pow2 24" using pow2_add [of "e + 1" "23 - e"] by (simp add: P_def)
  also have "pow2 24 = 16777216" by (simp add: pow2_eval)
  finally have MP: "of_int M * P < 16777216" .
  have MP0: "0 < of_int M * P" using Mr(1) Ppos by simp
  have zP: "z / pow2 (e - 23) = of_int M * P - of_int M * P * (11 / 719323136)"
    by (simp add: q zdef algebra_simps)
  have "rne (z / pow2 (e - 23)) = M * 2 ^ nat (23 - e)"
  proof (rule rne_near)
    have "of_int (M * 2 ^ nat (23 - e)) = of_int M * P" by (simp add: Pi)
    then show "of_int (M * 2 ^ nat (23 - e)) - 1 / 2 < z / pow2 (e - 23)"
      and "z / pow2 (e - 23) < of_int (M * 2 ^ nat (23 - e)) + 1 / 2"
      unfolding zP using MP MP0 by linarith+
  qed
  then have "rnd32 z = of_int M * P * pow2 (e - 23)" by (simp add: r Pi)
  also have "\<dots> = of_int M" using Ppos by (simp add: q)
  finally show ?thesis by (simp add: z_def)
qed

lemma ranging_unfold:
  assumes "0 < d"
  shows "readUltrasonicMillimetersRaw d =
         long_of_float (rnd32 (rnd32 (rnd32 (rnd32 (of_int (int d)) * (5754585 / 16777216)) * (1 / 2)) + 1 / 2))"
  using assms
  by (simp add: readUltrasonicMillimetersRaw_def Let_def fmul_def fadd_def float_of_uint32_def
        SOUND_SPEED_MM_PER_US_eq rnd32_half_const)

lemma ranging_nonneg: "0 < d \<Longrightarrow> 0 \<le> readUltrasonicMillimetersRaw d"
proof -
  assume d: "0 < d"
  have "0 \<le> rnd32 (rnd32 (rnd32 (rnd32 (of_int (int d)) * (5754585 / 16777216)) * (1 / 2)) + 1 / 2)"
    by (intro rnd32_nonneg add_nonneg_nonneg mult_nonneg_nonneg) simp_all
  then show ?thesis unfolding ranging_unfold [OF d] by (simp add: long_of_float_def)
qed

lemma ranging_exact:
  assumes d0: "0 < d" and d30: "d \<le> 30000"
  shows "readUltrasonicMillimetersRaw d = round (of_int (int d) * (343 / 1000) / 2 :: real)"
proof -
  define D :: real where "D = of_int (int d)"
  define X where "X = 343 * int d + 1000"
  define k where "k = X div 2000"
  define r where "r = X mod 2000"
  define p where "p = rnd32 (D * (5754585 / 16777216))"
  define y where "y = rnd32 (p / 2 + 1 / 2)"
  have Dr: "1 \<le> D" "D \<le> 30000" using d0 d30 by (simp_all add: D_def)
  have Xkr: "X = 2000 * k + r" and r0: "0 \<le> r" and r2: "r \<le> 1999"
    by (simp_all add: k_def r_def)
  have Xb: "1000 \<le> X" "X \<le> 10291000" using d30 by (simp_all add: X_def)
  have k0: "0 \<le> k" and k24: "k < 2 ^ 23"
    using Xb Xkr r0 r2 by simp_all
  have XD: "of_int X = 343 * D + 1000" by (simp add: X_def D_def)
  have xk: "D * (343 / 1000) / 2 + 1 / 2 = of_int k + of_int r / 2000"
  proof -
    have "of_int X = 2000 * (of_int k :: real) + of_int r" unfolding Xkr by simp
    then show ?thesis using XD by (simp add: field_simps)
  qed
  have goal: "round (D * (343 / 1000) / 2) = k"
  proof -
    have "round (D * (343 / 1000) / 2) = \<lfloor>of_int k + of_int r / 2000 :: real\<rfloor>"
      by (simp only: round_def xk)
    also have "\<dots> = k" using r0 r2 by (simp add: floor_unique)
    finally show ?thesis .
  qed
  have "\<bar>int d\<bar> \<le> 2 ^ 24" using d30 by simp
  then have fd: "rnd32 (of_int (int d)) = D" unfolding D_def by (rule rnd32_of_int)
  have "\<bar>D * (5754585 / 16777216)\<bar> < pow2 14" using Dr by (simp add: pow2_eval abs_if)
  then have "\<bar>rnd32 (D * (5754585 / 16777216)) - D * (5754585 / 16777216)\<bar> \<le> pow2 (14 - 25)"
    by (rule rnd32_err) simp
  then have pe: "\<bar>p - D * (5754585 / 16777216)\<bar> \<le> 1 / 2048" by (simp add: p_def pow2_eval)
  have "rnd32 (1 / 4) \<le> rnd32 (D * (5754585 / 16777216))" using Dr by (intro rnd32_mono) simp
  then have p4: "1 / 4 \<le> p" by (simp add: p_def rnd32_quarter_const)
  then have "pow2 (- 125) \<le> \<bar>p\<bar>"
    using pow2_mono [of "- 125" "- 2"] by (simp add: pow2_eval)
  then have "rnd32 (p / 2) = rnd32 p / 2" by (rule rnd32_half)
  then have mm: "rnd32 (p / 2) = p / 2" by (simp add: p_def)
  have res: "readUltrasonicMillimetersRaw d = long_of_float y"
    unfolding ranging_unfold [OF d0] fd by (simp only: flip: p_def) (simp add: mm y_def)
  have "0 \<le> p / 2 + 1 / 2" using p4 by simp
  then have "0 \<le> y" unfolding y_def by (rule rnd32_nonneg)
  then have res': "readUltrasonicMillimetersRaw d = \<lfloor>y\<rfloor>" by (simp add: res long_of_float_def)
  have pub: "p / 2 + 1 / 2 \<le> of_int k + of_int r / 2000 + 1 / 4096"
    using pe Dr xk by (simp add: abs_le_iff) argo
  have "\<bar>p / 2 + 1 / 2\<bar> < pow2 13" using pe Dr p4 by (simp add: pow2_eval abs_le_iff abs_if) argo
  then have "\<bar>rnd32 (p / 2 + 1 / 2) - (p / 2 + 1 / 2)\<bar> \<le> pow2 (13 - 25)" by (rule rnd32_err) simp
  then have ye: "\<bar>y - (p / 2 + 1 / 2)\<bar> \<le> 1 / 4096" by (simp add: y_def pow2_eval)
  have rr: "(of_int r :: real) \<le> 1999" using r2 by simp
  have up: "y < of_int k + 1" using ye pub rr by argo
  have lo: "of_int k \<le> y"
  proof (cases "r = 0")
    case False
    then have "1 \<le> r" using r0 by simp
    then have "(1 :: real) \<le> of_int r" by simp
    then have "of_int k \<le> p / 2 + 1 / 2" using pe Dr xk by argo
    then have "rnd32 (of_int k) \<le> rnd32 (p / 2 + 1 / 2)" by (rule rnd32_mono)
    moreover have "rnd32 (of_int k) = of_int k" using k0 k24 by (intro rnd32_of_int) simp
    ultimately show ?thesis by (simp add: y_def)
  next
    case True
    define M where "M = 2 * k - 1"
    have e: "343 * int d = 1000 * M" using Xkr True by (simp add: X_def M_def)
    have "odd M" by (simp add: M_def)
    have dd: "1 \<le> int d" "int d \<le> 30000" using d0 d30 by simp_all
    have "M \<noteq> 1"
    proof
      assume "M = 1"
      then have "343 * int d = 1000" using e by simp
      then show False by (cases "int d \<le> 2") linarith+
    qed
    moreover have "0 < M" using e dd by linarith
    moreover have "M \<noteq> 2" using \<open>odd M\<close> by auto
    ultimately have M3: "3 \<le> M" by linarith
    have M14: "M < 2 ^ 14" using e dd by simp
    have "(of_int (343 * int d) :: real) = of_int (1000 * M)" by (simp only: e)
    then have "343 * D = 1000 * of_int M" by (simp add: D_def)
    then have eq: "D * (5754585 / 16777216) = of_int M * (1 - 11 / 719323136)" by simp
    have "p = of_int M" unfolding p_def eq using \<open>odd M\<close> M3 M14 by (rule speed_tie_exact)
    then have "p / 2 + 1 / 2 = of_int k" by (simp add: M_def field_simps)
    moreover have "rnd32 (of_int k) = of_int k" using k0 k24 by (intro rnd32_of_int) simp
    ultimately show ?thesis by (simp add: y_def)
  qed
  have fl: "\<lfloor>y\<rfloor> = k" using lo up by (simp add: floor_unique)
  have "readUltrasonicMillimetersRaw d = k" by (simp only: res' fl)
  also have "k = round (D * (343 / 1000) / 2)" by (simp only: goal)
  finally show ?thesis by (simp only: D_def)
qed

text \<open>
  The bound on the pulse width matters: single-precision rounding departs from the exact
  formula for pulse widths that lie beyond the timeout of \<^verbatim>\<open>pulseIn\<close>, for
  the first time at 95793 microseconds.
\<close>

lemma ranging_beyond_timeout:
  "readUltrasonicMillimetersRaw 95793 = 16429 \<and> round (real 95793 * (343 / 1000) / 2) = 16428"
proof -
  have n1: "rne (551248960905 / 65536) = 8411392"
    by (rule rne_near) simp_all
  have p: "rnd32 (551248960905 / 16777216) = 32857"
    by (subst rnd32_at [where e = 15]) (simp_all add: n1 pow2_eval)
  have "rnd32 (of_int 32857 * pow2 (- 1)) = of_int 32857 * pow2 (- 1)" by (rule rnd32_repr) simp_all
  then have m: "rnd32 (32857 / 2) = 32857 / 2" by (simp add: pow2_eval)
  have d: "rnd32 95793 = 95793" using rnd32_of_int [of 95793] by simp
  have y: "rnd32 16429 = 16429" using rnd32_of_int [of 16429] by simp
  have "readUltrasonicMillimetersRaw 95793 = 16429"
    by (subst ranging_unfold) (simp_all add: d p m y long_of_float_def)
  moreover have "round (real 95793 * (343 / 1000) / 2) = 16428"
    by (simp add: round_def)
  ultimately show ?thesis by simp
qed

section \<open>The claims\<close>

text \<open>
  Claim C1. From the initial state, the raw readings 500, no-echo, 1800 print 500, 500,
  520 in that order. After the second sample \<open>lastGoodMm\<close> is still 500; on the third
  sample the slew-limited target is 580 and \<open>distFiltered\<close> becomes exactly 520.
\<close>

theorem end_to_end_example:
  "initial = \<lparr>hasValidDistance = False, lastGoodMm = 0, distFiltered = 0\<rparr> \<and>
   outputs [500, DIST_INVALID, 1800] initial = [500, 500, 520] \<and>
   lastGoodMm (run [500] initial) = 500 \<and>
   lastGoodMm (run [500, DIST_INVALID] initial) = 500 \<and>
   slewLimit (accept 1800 (run [500, DIST_INVALID] initial))
     (selectTarget (accept 1800 (run [500, DIST_INVALID] initial))) = 580 \<and>
   distFiltered (run [500, DIST_INVALID, 1800] initial) = 520 \<and>
   DIST_MIN_MM = 50 \<and> DIST_MAX_MM = 2000 \<and> DIST_EMA_ALPHA = 1 / 4 \<and>
   ENABLE_SLEW_LIMIT \<and> MAX_STEP_PER_SAMPLE_MM = 80"
  by (simp add: loop_eval DIST_EMA_ALPHA_eq)

text \<open>
  Claim C2. For every finite sequence of raw readings from the initial state, every
  printed \<open>dist_mm\<close> value is non-negative and different from the no-echo value
  \<open>DIST_INVALID = -1\<close>; and a sample after which \<open>hasValidDistance\<close> is still false prints
  the placeholder 0.
\<close>

theorem no_sentinel_leakage:
  "(\<forall>x \<in> set (outputs rs initial). 0 \<le> x \<and> x \<noteq> DIST_INVALID) \<and>
   (rs \<noteq> [] \<and> \<not> hasValidDistance (run rs initial) \<longrightarrow> last (outputs rs initial) = 0)"
proof (intro conjI ballI impI)
  fix x assume "x \<in> set (outputs rs initial)"
  with initial_ok have c: "x = 0 \<or> (50 \<le> x \<and> x \<le> 2000)" by (rule outputs_cases)
  then show "0 \<le> x" by auto
  from c show "x \<noteq> DIST_INVALID" by (auto simp: DIST_INVALID_def)
next
  assume "rs \<noteq> [] \<and> \<not> hasValidDistance (run rs initial)"
  then show "last (outputs rs initial) = 0" by (simp add: last_outputs outMm_def)
qed

theorem no_sentinel_leakage_witness:
  "500 \<in> set (outputs [DIST_INVALID, 500, DIST_INVALID] initial) \<and>
   (0::int) \<le> 500 \<and> 500 \<noteq> DIST_INVALID \<and>
   [DIST_INVALID] \<noteq> [] \<and> \<not> hasValidDistance (run [DIST_INVALID] initial) \<and>
   last (outputs [DIST_INVALID] initial) = 0 \<and>
   outputs [DIST_INVALID, 500, DIST_INVALID] initial = [0, 500, 500]"
  using no_sentinel_leakage [of "[DIST_INVALID, 500, DIST_INVALID]"]
    no_sentinel_leakage [of "[DIST_INVALID]"]
  by (simp add: loop_eval)



text \<open>
  Claim C4. With the slew limit enabled and \<open>MAX_STEP_PER_SAMPLE_MM = 80\<close>, take any
  input sequence from the initial state after which \<open>hasValidDistance\<close> is true, and any
  next raw reading. The rounded \<open>distFiltered\<close> after the next sample differs from the
  rounded \<open>distFiltered\<close> before it by at most \<open>MAX_STEP_PER_SAMPLE_MM\<close>, both for the
  rounding \<open>roundMm\<close> that the firmware prints and for exact rounding to the nearest
  integer; the two \<open>roundMm\<close> values are the values printed by the two consecutive
  samples.
\<close>

theorem slew_bound:
  "hasValidDistance (run rs initial) \<longrightarrow>
     ENABLE_SLEW_LIMIT \<and> MAX_STEP_PER_SAMPLE_MM = 80 \<and>
     \<bar>roundMm (distFiltered (snd (loop r (run rs initial)))) - roundMm (distFiltered (run rs initial))\<bar>
       \<le> MAX_STEP_PER_SAMPLE_MM \<and>
     \<bar>round (distFiltered (snd (loop r (run rs initial)))) - round (distFiltered (run rs initial))\<bar>
       \<le> MAX_STEP_PER_SAMPLE_MM \<and>
     fst (loop r (run rs initial)) = roundMm (distFiltered (snd (loop r (run rs initial)))) \<and>
     (rs \<noteq> [] \<longrightarrow> last (outputs rs initial) = roundMm (distFiltered (run rs initial)))"
proof (intro impI conjI)
  assume hv: "hasValidDistance (run rs initial)"
  define st where "st = run rs initial"
  define s where "s = distFiltered st"
  define L where "L = lastGoodMm (accept r st)"
  define tgt where "tgt = clampStep (roundMm s) L 80"
  have ok: "filter_ok st" unfolding st_def by (intro run_ok initial_ok)
  have hv': "hasValidDistance st" using hv by (simp add: st_def)
  note f = reach_facts(1-3) [OF hv, folded st_def s_def]
  note si = step_initialized [OF ok hv', of r, folded L_def s_def,
      unfolded MAX_STEP_PER_SAMPLE_MM_def, folded tgt_def]
  show "ENABLE_SLEW_LIMIT" by (simp add: ENABLE_SLEW_LIMIT_def)
  show "MAX_STEP_PER_SAMPLE_MM = 80" by (simp add: MAX_STEP_PER_SAMPLE_MM_def)
  have b: "(roundMm s \<le> roundMm (emaStep s tgt) \<and> roundMm (emaStep s tgt) \<le> tgt) \<or>
           (tgt \<le> roundMm (emaStep s tgt) \<and> roundMm (emaStep s tgt) \<le> roundMm s)"
    unfolding tgt_def using f si(3,4) by (rule tick_output_between)
  have c: "\<bar>tgt - roundMm s\<bar> \<le> 80" unfolding tgt_def by (rule clampStep_step) simp
  from b c have "\<bar>roundMm (emaStep s tgt) - roundMm s\<bar> \<le> 80" by linarith
  then show "\<bar>roundMm (distFiltered (snd (loop r (run rs initial)))) - roundMm (distFiltered (run rs initial))\<bar>
       \<le> MAX_STEP_PER_SAMPLE_MM"
    by (simp add: si(1) MAX_STEP_PER_SAMPLE_MM_def flip: st_def s_def)
  have "\<bar>emaStep s tgt - s\<bar> \<le> 41 / 2"
    unfolding tgt_def using f si(3,4) by (rule tick_move_bound)
  then have "\<bar>round (emaStep s tgt) - round s\<bar> \<le> 80"
    using of_int_round_le [of "emaStep s tgt"] of_int_round_ge [of "emaStep s tgt"]
      of_int_round_le [of s] of_int_round_ge [of s] by linarith
  then show "\<bar>round (distFiltered (snd (loop r (run rs initial)))) - round (distFiltered (run rs initial))\<bar>
       \<le> MAX_STEP_PER_SAMPLE_MM"
    by (simp add: si(1) MAX_STEP_PER_SAMPLE_MM_def flip: st_def s_def)
  show "fst (loop r (run rs initial)) = roundMm (distFiltered (snd (loop r (run rs initial))))"
    by (simp add: si(1,2) flip: st_def s_def)
  assume "rs \<noteq> []"
  then show "last (outputs rs initial) = roundMm (distFiltered (run rs initial))"
    using hv by (simp add: last_outputs outMm_def)
qed

theorem slew_bound_witness:
  "hasValidDistance (run [500] initial) \<and>
   \<bar>roundMm (distFiltered (snd (loop 1800 (run [500] initial)))) - roundMm (distFiltered (run [500] initial))\<bar>
     \<le> MAX_STEP_PER_SAMPLE_MM \<and>
   fst (loop 1800 (run [500] initial)) = 520 \<and> last (outputs [500] initial) = 500"
  using slew_bound [of "[500]" 1800]
  by (simp add: loop_eval)

text \<open>
  Claim C5. From any state in which \<open>hasValidDistance\<close> is false, let rejected readings
  \<open>rs\<close> be followed by the first valid reading \<open>V\<close> (\<open>50 \<le> V \<le> 2000\<close>). The seeding in
  step 1 sets \<open>distFiltered\<close> to exactly \<open>V\<close>, it is still exactly \<open>V\<close> at the end of that
  sample, \<open>hasValidDistance\<close> is true, that sample prints \<open>V\<close>, and every earlier sample
  printed the placeholder 0 with \<open>hasValidDistance\<close> still false.
\<close>

theorem first_valid_reading_seeds_filter:
  assumes "\<not> hasValidDistance st" and "\<forall>r \<in> set rs. r = DIST_INVALID \<or> r < 50 \<or> 2000 < r"
    and "50 \<le> V" and "V \<le> 2000"
  shows "distFiltered (accept V (run rs st)) = of_int V \<and>
         distFiltered (run (rs @ [V]) st) = of_int V \<and>
         hasValidDistance (run (rs @ [V]) st) \<and>
         outputs (rs @ [V]) st = replicate (length rs) 0 @ [V] \<and>
         \<not> hasValidDistance (run rs st)"
proof -
  have rej: "\<forall>r \<in> set rs. \<not> isDistanceValid r"
    using assms(2) invalid_sentinel by (auto simp: not_valid_iff)
  have r: "run rs st = st" using assms(1) rej by (rule run_rejected)
  have o: "outputs rs st = replicate (length rs) 0" using assms(1) rej by (rule outputs_rejected)
  note l = loop_seed [OF assms(1,3,4)]
  have "distFiltered (accept V (run rs st)) = of_int V"
    using assms(1,3,4) by (simp add: r accept_valid_uninit valid_iff)
  moreover have "distFiltered (run (rs @ [V]) st) = of_int V" by (simp add: run_append r l)
  moreover have "hasValidDistance (run (rs @ [V]) st)" by (simp add: run_append r l)
  moreover have "outputs (rs @ [V]) st = replicate (length rs) 0 @ [V]"
    by (simp add: outputs_append r o l)
  moreover have "\<not> hasValidDistance (run rs st)" using assms(1) by (simp add: r)
  ultimately show ?thesis by simp
qed

theorem first_valid_reading_seeds_filter_witness:
  "\<not> hasValidDistance initial \<and>
   DIST_INVALID = DIST_INVALID \<and> (2000::int) < 3000 \<and> (7::int) < 50 \<and>
   (50::int) \<le> 777 \<and> (777::int) \<le> 2000 \<and>
   distFiltered (run ([DIST_INVALID, 3000, 7] @ [777]) initial) = 777 \<and>
   outputs ([DIST_INVALID, 3000, 7] @ [777]) initial = [0, 0, 0, 777]"
  using first_valid_reading_seeds_filter [of initial "[DIST_INVALID, 3000, 7]" 777]
  by (simp add: initial_def DIST_INVALID_def)

text \<open>
  Claim C6. Take any state reached from the initial state in which \<open>hasValidDistance\<close> is
  true, and repeat a constant valid reading \<open>V\<close> (\<open>50 \<le> V \<le> 2000\<close>). After any number
  \<open>n \<ge> 115\<close> of samples \<open>distFiltered\<close> is less than 1 mm from \<open>V\<close>. On a sample on which
  the slew limit does not clamp (the rounded \<open>distFiltered\<close> is within
  \<open>MAX_STEP_PER_SAMPLE_MM\<close> of \<open>V\<close>) the remaining gap shrinks by the factor
  \<open>1 - DIST_EMA_ALPHA = 3/4\<close>, up to a single-precision rounding error of at most
  \<open>2\<^sup>-\<^sup>1\<^sup>3\<close> mm; from then on the slew limit never clamps again, and \<open>m\<close> samples later the
  gap is at most \<open>(3/4)\<^sup>m\<close> times the gap, plus \<open>2\<^sup>-\<^sup>1\<^sup>1\<close> mm.
\<close>

theorem convergence_to_constant_input:
  "hasValidDistance (run rs initial) \<and> 50 \<le> V \<and> V \<le> 2000 \<longrightarrow>
     (\<forall>n\<ge>115. \<bar>distFiltered (run (replicate n V) (run rs initial)) - of_int V\<bar> < 1) \<and>
     (\<forall>n. \<bar>V - roundMm (distFiltered (run (replicate n V) (run rs initial)))\<bar>
            \<le> MAX_STEP_PER_SAMPLE_MM \<longrightarrow>
          \<bar>distFiltered (run (replicate (Suc n) V) (run rs initial)) - of_int V\<bar>
            \<le> (1 - DIST_EMA_ALPHA) * \<bar>distFiltered (run (replicate n V) (run rs initial)) - of_int V\<bar>
               + 1 / 8192 \<and>
          (\<forall>m. \<bar>V - roundMm (distFiltered (run (replicate (n + m) V) (run rs initial)))\<bar>
                 \<le> MAX_STEP_PER_SAMPLE_MM \<and>
               \<bar>distFiltered (run (replicate (n + m) V) (run rs initial)) - of_int V\<bar>
                 \<le> (1 - DIST_EMA_ALPHA) ^ m
                      * \<bar>distFiltered (run (replicate n V) (run rs initial)) - of_int V\<bar>
                    + 1 / 2048))"
proof (intro impI conjI allI)
  assume a: "hasValidDistance (run rs initial) \<and> 50 \<le> V \<and> V \<le> 2000"
  have ok: "filter_ok (run rs initial)" by (intro run_ok initial_ok)
  have hv: "hasValidDistance (run rs initial)" and V: "50 \<le> V" "V \<le> 2000" using a by simp_all
  fix n
  show "\<bar>distFiltered (run (replicate n V) (run rs initial)) - of_int V\<bar> < 1" if "115 \<le> n"
    using ok hv V that by (rule converged_after_115)
  define x where "x = run (replicate n V) (run rs initial)"
  have okx: "filter_ok x" unfolding x_def using ok by (rule run_ok)
  have hvx: "hasValidDistance x" unfolding x_def using hv by (rule run_hasValid_mono)
  assume "\<bar>V - roundMm (distFiltered (run (replicate n V) (run rs initial)))\<bar> \<le> MAX_STEP_PER_SAMPLE_MM"
  then have u: "\<bar>V - roundMm (distFiltered x)\<bar> \<le> 80" by (simp add: x_def MAX_STEP_PER_SAMPLE_MM_def)
  from step_gap(2) [OF okx hvx V u]
  show "\<bar>distFiltered (run (replicate (Suc n) V) (run rs initial)) - of_int V\<bar>
            \<le> (1 - DIST_EMA_ALPHA) * \<bar>distFiltered (run (replicate n V) (run rs initial)) - of_int V\<bar>
               + 1 / 8192"
    unfolding run_replicate_Suc x_def [symmetric] by (simp add: DIST_EMA_ALPHA_eq)
  fix m
  have r: "run (replicate (n + m) V) (run rs initial) = run (replicate m V) x"
    by (simp add: replicate_add run_append x_def)
  note g = gap_geometric [OF okx hvx V u, of m]
  from g show "\<bar>V - roundMm (distFiltered (run (replicate (n + m) V) (run rs initial)))\<bar>
                 \<le> MAX_STEP_PER_SAMPLE_MM"
    unfolding r by (simp add: MAX_STEP_PER_SAMPLE_MM_def)
  from g show "\<bar>distFiltered (run (replicate (n + m) V) (run rs initial)) - of_int V\<bar>
                 \<le> (1 - DIST_EMA_ALPHA) ^ m
                      * \<bar>distFiltered (run (replicate n V) (run rs initial)) - of_int V\<bar>
                    + 1 / 2048"
    unfolding r x_def [symmetric] by (simp add: DIST_EMA_ALPHA_eq)
qed

theorem convergence_to_constant_input_witness:
  "hasValidDistance (run [500] initial) \<and> (50::int) \<le> 520 \<and> (520::int) \<le> 2000 \<and>
   (115::nat) \<le> 115 \<and>
   \<bar>distFiltered (run (replicate 115 520) (run [500] initial)) - 520\<bar> < 1 \<and>
   \<bar>520 - roundMm (distFiltered (run (replicate 0 520) (run [500] initial)))\<bar>
     \<le> MAX_STEP_PER_SAMPLE_MM \<and>
   distFiltered (run (replicate 0 520) (run [500] initial)) = 500 \<and>
   distFiltered (run (replicate (Suc 0) 520) (run [500] initial)) = 505"
proof -
  have h: "hasValidDistance (run [500] initial) \<and> (50::int) \<le> 520 \<and> (520::int) \<le> 2000"
    by (simp add: loop_eval)
  from convergence_to_constant_input [of "[500]" 520] h
  have "\<forall>n\<ge>115. \<bar>distFiltered (run (replicate n 520) (run [500] initial)) - of_int 520\<bar> < 1"
    by blast
  then have "\<bar>distFiltered (run (replicate 115 520) (run [500] initial)) - 520\<bar> < 1" by simp
  then show ?thesis using h by (simp add: loop_eval)
qed

text \<open>
  Claim C7. Along every sequence of samples from the initial state, once
  \<open>hasValidDistance\<close> (\<^emph>\<open>initialized\<close>) has become true, it is true after every further
  sequence of raw readings, whatever they are.
\<close>

theorem initialized_never_reverts:
  "hasValidDistance (run rs initial) \<Longrightarrow> hasValidDistance (run (rs @ rs') initial)"
  by (simp add: run_append run_hasValid_mono)

theorem initialized_never_reverts_witness:
  "hasValidDistance (run [500] initial) \<and>
   hasValidDistance (run ([500] @ [DIST_INVALID, 3000, 0]) initial)"
  using initialized_never_reverts [of "[500]" "[DIST_INVALID, 3000, 0]"]
  by (simp add: step_hasValid isDistanceValid_def DIST_MIN_MM_def DIST_MAX_MM_def)

text \<open>
  Claim C8. \<open>readUltrasonicMillimetersRaw\<close> returns the no-echo value \<open>DIST_INVALID\<close>
  exactly when the measured pulse width is 0. For every positive pulse width \<open>d\<close> that
  \<^verbatim>\<open>pulseIn\<close> can return under its timeout \<open>US_ECHO_TIMEOUT_US\<close>, it returns the distance
  \<open>d \<cdot> 0.343 / 2\<close> rounded to the nearest millimetre.
\<close>

theorem ranging_unit_measure:
  "(readUltrasonicMillimetersRaw duration_us = DIST_INVALID \<longleftrightarrow> duration_us = 0) \<and>
   (0 < duration_us \<and> duration_us \<le> US_ECHO_TIMEOUT_US \<longrightarrow>
      readUltrasonicMillimetersRaw duration_us = round (real duration_us * (343 / 1000) / 2))"
proof (intro conjI impI)
  show "readUltrasonicMillimetersRaw duration_us = DIST_INVALID \<longleftrightarrow> duration_us = 0"
  proof (cases "duration_us = 0")
    case True
    then show ?thesis by (simp add: readUltrasonicMillimetersRaw_def)
  next
    case False
    then have "0 \<le> readUltrasonicMillimetersRaw duration_us" by (intro ranging_nonneg) simp
    then show ?thesis using False by (simp add: DIST_INVALID_def)
  qed
next
  assume "0 < duration_us \<and> duration_us \<le> US_ECHO_TIMEOUT_US"
  then have "0 < duration_us" "duration_us \<le> 30000" by (simp_all add: US_ECHO_TIMEOUT_US_def)
  then have "readUltrasonicMillimetersRaw duration_us
             = round (of_int (int duration_us) * (343 / 1000) / 2 :: real)" by (rule ranging_exact)
  then show "readUltrasonicMillimetersRaw duration_us = round (real duration_us * (343 / 1000) / 2)"
    by simp
qed

theorem ranging_unit_measure_witness:
  "(0::nat) < 1000 \<and> 1000 \<le> US_ECHO_TIMEOUT_US \<and>
   readUltrasonicMillimetersRaw 1000 = 172 \<and> readUltrasonicMillimetersRaw 0 = DIST_INVALID"
  using ranging_unit_measure [of 1000] ranging_unit_measure [of 0]
  by (simp add: US_ECHO_TIMEOUT_US_def round_def)

text \<open>
  Claim C9. For every input sequence from the initial state, once \<open>hasValidDistance\<close> is
  true, \<open>distFiltered\<close> lies in the closed interval from \<open>DIST_MIN_MM = 50\<close> to
  \<open>DIST_MAX_MM = 2000\<close>, and the value printed by the last sample is an integer in the same
  interval.
\<close>

theorem smoothed_stays_in_valid_range:
  "hasValidDistance (run rs initial) \<longrightarrow>
     of_int DIST_MIN_MM \<le> distFiltered (run rs initial) \<and>
     distFiltered (run rs initial) \<le> of_int DIST_MAX_MM \<and>
     (rs \<noteq> [] \<longrightarrow> DIST_MIN_MM \<le> last (outputs rs initial) \<and>
                  last (outputs rs initial) \<le> DIST_MAX_MM)"
proof (intro impI conjI)
  assume v: "hasValidDistance (run rs initial)"
  note f = reach_facts [OF v]
  show "of_int DIST_MIN_MM \<le> distFiltered (run rs initial)" using f(2) by (simp add: DIST_MIN_MM_def)
  show "distFiltered (run rs initial) \<le> of_int DIST_MAX_MM" using f(3) by (simp add: DIST_MAX_MM_def)
  assume "rs \<noteq> []"
  then have l: "last (outputs rs initial) = roundMm (distFiltered (run rs initial))"
    using v by (simp add: last_outputs outMm_def)
  from roundMm_range [OF f(2,3)]
  show "DIST_MIN_MM \<le> last (outputs rs initial)" "last (outputs rs initial) \<le> DIST_MAX_MM"
    by (simp_all add: l DIST_MIN_MM_def DIST_MAX_MM_def)
qed

theorem smoothed_stays_in_valid_range_witness:
  "hasValidDistance (run [500, DIST_INVALID, 1800] initial) \<and>
   of_int DIST_MIN_MM \<le> distFiltered (run [500, DIST_INVALID, 1800] initial) \<and>
   distFiltered (run [500, DIST_INVALID, 1800] initial) \<le> of_int DIST_MAX_MM \<and>
   [500, DIST_INVALID, 1800] \<noteq> [] \<and>
   DIST_MIN_MM \<le> last (outputs [500, DIST_INVALID, 1800] initial) \<and>
   last (outputs [500, DIST_INVALID, 1800] initial) \<le> DIST_MAX_MM"
  using smoothed_stays_in_valid_range [of "[500, DIST_INVALID, 1800]"]
  by (simp add: step_hasValid valid_iff)

text \<open>
  Claim C10. The slew limit does not act on the initialization sample. From any state in
  which \<open>hasValidDistance\<close> is false (so that the value it prints is the placeholder 0), a
  valid reading \<open>V\<close> first seeds \<open>distFiltered\<close> with \<open>V\<close>; the slew limit, applied to the
  seeded state, leaves the target \<open>V\<close>; and the sample prints \<open>V\<close>. For the input sequence
  no-echo, 2000 the printed values are 0 and 2000: two consecutive outputs 2000 mm apart,
  more than \<open>MAX_STEP_PER_SAMPLE_MM\<close>, with the slew limit enabled.
\<close>

theorem slew_limit_skips_initialization:
  "(\<not> hasValidDistance st \<and> 50 \<le> V \<and> V \<le> 2000 \<longrightarrow>
      outMm st = 0 \<and>
      distFiltered (accept V st) = of_int V \<and>
      slewLimit (accept V st) (selectTarget (accept V st)) = V \<and>
      fst (loop V st) = V) \<and>
   outputs [DIST_INVALID, 2000] initial = [0, 2000] \<and>
   ENABLE_SLEW_LIMIT \<and> MAX_STEP_PER_SAMPLE_MM < 2000 - 0"
proof (intro conjI impI)
  assume a: "\<not> hasValidDistance st \<and> 50 \<le> V \<and> V \<le> 2000"
  then have v: "isDistanceValid V" by (simp add: valid_iff)
  have acc: "accept V st = st\<lparr>lastGoodMm := V, distFiltered := of_int V, hasValidDistance := True\<rparr>"
    using v a by (simp add: accept_valid_uninit)
  have r: "roundMm (of_int V) = V" using a by (intro roundMm_of_int) simp_all
  show "outMm st = 0" using a by (simp add: outMm_def)
  show "distFiltered (accept V st) = of_int V" by (simp add: acc)
  show "slewLimit (accept V st) (selectTarget (accept V st)) = V"
    by (simp add: acc slewLimit_def selectTarget_def ENABLE_SLEW_LIMIT_def r clampStep_def
          MAX_STEP_PER_SAMPLE_MM_def)
  show "fst (loop V st) = V" using a by (simp add: loop_seed)
next
  show "outputs [DIST_INVALID, 2000] initial = [0, 2000]" by (simp add: loop_eval)
  show "ENABLE_SLEW_LIMIT" by (simp add: ENABLE_SLEW_LIMIT_def)
  show "MAX_STEP_PER_SAMPLE_MM < 2000 - 0" by (simp add: MAX_STEP_PER_SAMPLE_MM_def)
qed

theorem slew_limit_skips_initialization_witness:
  "\<not> hasValidDistance initial \<and> (50::int) \<le> 2000 \<and> outMm initial = 0 \<and>
   distFiltered (accept 2000 initial) = 2000 \<and>
   slewLimit (accept 2000 initial) (selectTarget (accept 2000 initial)) = 2000 \<and>
   fst (loop 2000 initial) = 2000"
  using slew_limit_skips_initialization [of initial 2000]
  by (simp add: initial_def)

end
